theory Spec2Isabelle
  imports Main "HOL-Library.Word" "HOL-Library.Sublist"
begin

section \<open>Data model\<close>

text \<open>
  The Go code runs on a 64-bit platform: \<open>uint64\<close> and \<open>uint\<close> are 64-bit words whose
  arithmetic wraps around, \<open>int8\<close> is an 8-bit word read in two's complement.
  Positions into slices and slice lengths are natural numbers (Go bounds them by the
  range of \<open>int\<close>).
\<close>

type_synonym u64 = "64 word"
type_synonym i8 = "8 word"

text \<open>\<open>database.Metadata\<close>; the fields carry their JSON names.\<close>

record Metadata =
  num_vectors :: u64
  dim :: u64
  num_clusters :: u64

text \<open>\<open>database.Cluster\<close>.\<close>

record Cluster =
  Index :: u64
  NumVectors :: u64
  Dim :: u64
  PrecBits :: u64
  Vectors :: "i8 list"

text \<open>
  The LWE/PIR backend is an external library; the three entry points the code calls are
  parameters of the model. Of \<open>lwe.Params\<close> the record keeps the number of samples \<open>M\<close>
  and the two fields \<open>BuildVectorDatabase\<close> reads, \<open>P\<close> and \<open>Logq\<close>.
\<close>

record Params =
  M :: u64
  P :: u64
  Logq :: u64

record 'db Backend =
  NewParamsFixedP :: "u64 \<Rightarrow> u64 \<Rightarrow> u64 \<Rightarrow> Params option"
  NewDatabaseFixedParams :: "u64 \<Rightarrow> u64 \<Rightarrow> u64 list \<Rightarrow> Params \<Rightarrow> 'db"
  Info_L :: "'db \<Rightarrow> u64"

text \<open>Every way the modelled functions stop with a panic.\<close>

datatype panic =
    NoClustersGiven              \<comment> \<open>"No clusters given"\<close>
  | IndexOutOfRange              \<comment> \<open>Go runtime: index out of range\<close>
  | NilDereference               \<comment> \<open>Go runtime: nil pointer dereference\<close>
  | ParamFailure                 \<comment> \<open>"Failure in picking SimplePIR DB parameters"\<close>
  | KeyShouldNotYetExist         \<comment> \<open>"Key should not yet exist"\<close>
  | RowOverflow                  \<comment> \<open>"Should not happen", raised on \<open>rowIndex > l\<close>\<close>
  | DBInfoMismatch               \<comment> \<open>"Should not happen", raised on \<open>db.Info.L != l\<close>\<close>
  | MetadataError                \<comment> \<open>"Error decoding metadata file"\<close>
  | CsvError                     \<comment> \<open>"Error reading CSV file ..."\<close>
  | LengthMismatch               \<comment> \<open>"... length of vectors does not match"\<close>
  | DimensionMismatch            \<comment> \<open>"Dimension mismatch"\<close>
  | PrecisionMismatch            \<comment> \<open>"Precision mismatch"\<close>
  | TotalMismatch                \<comment> \<open>"Total number of vectors mismatch"\<close>
  | NoScoresToWrite              \<comment> \<open>"Error: No scores to write"\<close>
  | MakeSliceLenOutOfRange       \<comment> \<open>Go runtime: makeslice: len out of range\<close>
  | OutputWriteError             \<comment> \<open>"Error writing to output file: ..."\<close>
  | PerfWriteError               \<comment> \<open>"Error writing to performance output file: ..."\<close>

section \<open>PackClusters\<close>

text \<open>
  \<open>sort.Slice\<close> belongs to the Go standard library. Its documentation promises a slice
  sorted with respect to the given \<open>less\<close> and states that the sort is not guaranteed to be
  stable. The model therefore takes the contents of \<open>clusterIndices\<close> after the call as
  an argument, and \<open>sort_Slice_post\<close> is what the library guarantees about it: a
  permutation of the positions \<open>0 .. numClusters - 1\<close> in which no later element is
  \<open>less\<close> than an earlier one.
\<close>

definition less_closure :: "Cluster list \<Rightarrow> nat \<Rightarrow> nat \<Rightarrow> bool" where
  "less_closure clusters a b \<longleftrightarrow> NumVectors (clusters ! a) > NumVectors (clusters ! b)"

definition sort_Slice_post :: "Cluster list \<Rightarrow> nat list \<Rightarrow> bool" where
  "sort_Slice_post clusters clusterIndices \<longleftrightarrow>
     length clusterIndices = length clusters \<and>
     distinct clusterIndices \<and>
     list_all (\<lambda>i. i < length clusters) clusterIndices \<and>
     sorted_wrt (\<lambda>a b. \<not> less_closure clusters b a) clusterIndices"

text \<open>
  Lines 112-120: the search for the first stripe that takes a cluster of \<open>n\<close> vectors
  with id \<open>idx\<close>. The result carries the flag \<open>fit\<close>.
\<close>

function fitLoop ::
  "u64 \<Rightarrow> u64 \<Rightarrow> u64 \<Rightarrow> nat \<Rightarrow> u64 list list \<Rightarrow> u64 list \<Rightarrow> panic + (u64 list list \<times> u64 list \<times> bool)"
where
  "fitLoop maxCapacity n idx j cols col_szs =
     (if j < length cols then
        (if j < length col_szs then
           (if col_szs ! j + n < maxCapacity
            then Inr (cols[j := cols ! j @ [idx]], col_szs[j := col_szs ! j + n], True)
            else fitLoop maxCapacity n idx (Suc j) cols col_szs)
         else Inl IndexOutOfRange)
      else Inr (cols, col_szs, False))"
  by pat_completeness auto
termination
  by (relation "measure (\<lambda>(maxCapacity, n, idx, j, cols, col_szs). length cols - j)") auto

declare fitLoop.simps [simp del]

text \<open>Lines 111-127: the loop over the remaining clusters, \<open>i\<close> from 1.\<close>

function packLoop ::
  "Cluster list \<Rightarrow> nat list \<Rightarrow> u64 \<Rightarrow> nat \<Rightarrow> u64 list list \<Rightarrow> u64 list \<Rightarrow> panic + (u64 list list \<times> u64 list)"
where
  "packLoop clusters clusterIndices maxCapacity i cols col_szs =
     (if i < length clusters then
        (if i < length clusterIndices \<and> clusterIndices ! i < length clusters then
           (let c = clusters ! (clusterIndices ! i) in
            case fitLoop maxCapacity (NumVectors c) (Index c) 0 cols col_szs of
              Inl e \<Rightarrow> Inl e
            | Inr (cols', col_szs', fit) \<Rightarrow>
                if fit then packLoop clusters clusterIndices maxCapacity (Suc i) cols' col_szs'
                else packLoop clusters clusterIndices maxCapacity (Suc i)
                       (cols' @ [[Index c]]) (col_szs' @ [NumVectors c]))
         else Inl IndexOutOfRange)
      else Inr (cols, col_szs))"
  by pat_completeness auto
termination
  by (relation "measure (\<lambda>(clusters, clusterIndices, maxCapacity, i, cols, col_szs). length clusters - i)")
     auto

declare packLoop.simps [simp del]

text \<open>
  \<open>PackClusters\<close> (lines 85-130). The first argument is \<open>clusterIndices\<close> as
  \<open>sort.Slice\<close> leaves it (lines 90-99).
\<close>

definition PackClusters ::
  "nat list \<Rightarrow> Cluster list \<Rightarrow> u64 \<Rightarrow> panic + (u64 list list \<times> u64 list)"
where
  "PackClusters clusterIndices clusters maxCapacity =
     (if length clusters = 0 then Inl NoClustersGiven
      else if 0 < length clusterIndices \<and> clusterIndices ! 0 < length clusters then
        (let first = clusters ! (clusterIndices ! 0);
             maxCapacity' = (if NumVectors first > maxCapacity then NumVectors first else maxCapacity)
         in packLoop clusters clusterIndices maxCapacity' 1 [[Index first]] [NumVectors first])
      else Inl IndexOutOfRange)"

section \<open>The packing algorithm of the specification\<close>

text \<open>
  First-fit decreasing as section 4.2 of the specification words it, on stripes that list
  positions into the cluster list: the row-count of a stripe is the sum of the sizes of its
  clusters, a cluster goes into the first stripe whose row-count plus the cluster's size
  is strictly below the capacity, and opens a new stripe when there is none.
\<close>

definition rowCount :: "Cluster list \<Rightarrow> nat list \<Rightarrow> u64" where
  "rowCount clusters s = sum_list (map (\<lambda>i. NumVectors (clusters ! i)) s)"

fun place :: "Cluster list \<Rightarrow> u64 \<Rightarrow> nat \<Rightarrow> nat list list \<Rightarrow> nat list list" where
  "place clusters cap i [] = [[i]]"
| "place clusters cap i (s # ss) =
     (if rowCount clusters s + NumVectors (clusters ! i) < cap then (s @ [i]) # ss
      else s # place clusters cap i ss)"

definition raisedCap :: "Cluster list \<Rightarrow> nat list \<Rightarrow> u64 \<Rightarrow> u64" where
  "raisedCap clusters order cap = max cap (NumVectors (clusters ! hd order))"

definition ffd :: "Cluster list \<Rightarrow> nat list \<Rightarrow> u64 \<Rightarrow> nat list list" where
  "ffd clusters order cap =
     foldl (\<lambda>ss i. place clusters (raisedCap clusters order cap) i ss) [[hd order]] (tl order)"

definition idsOf :: "Cluster list \<Rightarrow> nat list list \<Rightarrow> u64 list list" where
  "idsOf clusters ss = map (map (\<lambda>i. Index (clusters ! i))) ss"

definition rowCounts :: "Cluster list \<Rightarrow> nat list list \<Rightarrow> u64 list" where
  "rowCounts clusters ss = map (rowCount clusters) ss"

text \<open>
  The size of the cluster that carries a given id, for stating what a stripe holds:
  the first cluster of the list whose \<open>Index\<close> is the id.
\<close>

definition numVectorsOf :: "Cluster list \<Rightarrow> u64 \<Rightarrow> u64" where
  "numVectorsOf clusters cid =
     (case find (\<lambda>c. Index c = cid) clusters of Some c \<Rightarrow> NumVectors c | None \<Rightarrow> 0)"

text \<open>
  A sort is stable when clusters of equal size keep the order of their positions in the
  input list.
\<close>

definition stable_order :: "Cluster list \<Rightarrow> nat list \<Rightarrow> bool" where
  "stable_order clusters clusterIndices \<longleftrightarrow>
     sorted_wrt (\<lambda>a b. NumVectors (clusters ! a) = NumVectors (clusters ! b) \<longrightarrow> a < b)
       clusterIndices"

section \<open>ReadAllClusters\<close>

text \<open>
  File access, CSV parsing, \<open>strconv.ParseFloat\<close> and \<open>utils.QuantizeClamp\<close> are outside
  the model. A cluster file is given by what the reader yields: \<open>None\<close> when it cannot be
  opened or parsed, otherwise its records, every field already quantised.
  \<open>csv.Reader\<close> with \<open>FieldsPerRecord = int(dim)\<close> rejects a record with another number of
  fields when that number is positive, compares with the first record when it is zero,
  and checks nothing when it is negative.
\<close>

definition ReadClusterFromCsv :: "i8 list list option \<Rightarrow> u64 \<Rightarrow> u64 \<Rightarrow> u64 \<Rightarrow> panic + Cluster" where
  "ReadClusterFromCsv file index dim' precBits =
     (case file of
        None \<Rightarrow> Inl CsvError
      | Some rows \<Rightarrow>
          if (0 < sint dim' \<and> (\<exists>r \<in> set rows. int (length r) \<noteq> sint dim')) \<or>
             (sint dim' = 0 \<and> (\<exists>r \<in> set rows. length r \<noteq> length (hd rows)))
          then Inl CsvError
          else
            (let vectors = concat (map (take (nat (sint dim'))) rows);
                 numVec = length rows
             in if (of_nat (length vectors) :: u64) \<noteq> of_nat numVec * dim' then Inl LengthMismatch
                else Inr \<lparr>Index = index, NumVectors = of_nat numVec, Dim = dim',
                          PrecBits = precBits, Vectors = vectors\<rparr>))"

text \<open>Lines 161-174; \<open>clusters\<close> holds the clusters read so far.\<close>

function readLoop ::
  "(u64 \<Rightarrow> i8 list list option) \<Rightarrow> u64 \<Rightarrow> u64 \<Rightarrow> u64 \<Rightarrow> u64 \<Rightarrow> u64 \<Rightarrow> Cluster list \<Rightarrow>
     panic + (u64 \<times> Cluster list)"
where
  "readLoop files dim' precBits numClusters i vecCountVeri clusters =
     (if i < numClusters then
        (case ReadClusterFromCsv (files i) i dim' precBits of
           Inl e \<Rightarrow> Inl e
         | Inr c \<Rightarrow>
             if Dim c \<noteq> dim' then Inl DimensionMismatch
             else if PrecBits c \<noteq> precBits then Inl PrecisionMismatch
             else readLoop files dim' precBits numClusters (i + 1)
                    (vecCountVeri + NumVectors c) (clusters @ [c]))
      else Inr (vecCountVeri, clusters))"
  by pat_completeness auto
termination
  by (relation "measure (\<lambda>(files, dim', precBits, numClusters, i, vecCountVeri, clusters).
                  unat numClusters - unat i)")
     (auto, unat_arith)

declare readLoop.simps [simp del]

text \<open>
  \<open>ReadAllClusters\<close> (lines 132-181); \<open>metadataFile\<close> is the decoded metadata file,
  \<open>None\<close> when opening or decoding fails.
\<close>

definition ReadAllClusters ::
  "Metadata option \<Rightarrow> (u64 \<Rightarrow> i8 list list option) \<Rightarrow> u64 \<Rightarrow> panic + (Metadata \<times> Cluster list)"
where
  "ReadAllClusters metadataFile files precBits =
     (case metadataFile of
        None \<Rightarrow> Inl MetadataError
      | Some metadata \<Rightarrow>
          (case readLoop files (dim metadata) precBits (num_clusters metadata) 0 0 [] of
             Inl e \<Rightarrow> Inl e
           | Inr (vecCountVeri, clusters) \<Rightarrow>
               if vecCountVeri \<noteq> num_vectors metadata then Inl TotalMismatch
               else Inr (metadata, clusters)))"

section \<open>BuildVectorDatabase\<close>

definition DBIndex :: "u64 \<Rightarrow> u64 \<Rightarrow> u64 \<Rightarrow> u64" where
  "DBIndex row col m = row * m + col"

text \<open>
  Modelled from the spec: \<open>utils.Max\<close> is defined in \<open>search/utils\<close>, which is not part of
  the sources at hand; the specification gives \<open>L = max(colRowCounts)\<close>.
\<close>

definition utils_Max :: "u64 list \<Rightarrow> u64" where
  "utils_Max xs = fold max xs 0"

text \<open>
  Lines 225-227: one vector of a cluster is copied into row \<open>rowIndex\<close>, lanes
  \<open>j .. slots - 1\<close>. The conversion \<open>uint64(v)\<close> of an \<open>int8\<close> value sign-extends
  (\<open>scast\<close>). Reading or writing out of range stops the program.
\<close>

function lanesLoop ::
  "i8 list \<Rightarrow> u64 \<Rightarrow> u64 \<Rightarrow> u64 \<Rightarrow> u64 \<Rightarrow> u64 \<Rightarrow> u64 \<Rightarrow> u64 list \<Rightarrow> panic + u64 list"
where
  "lanesLoop vectors start rowIndex colBase m slots j vals =
     (if j < slots then
        (if unat (start + j) < length vectors \<and>
            unat (DBIndex rowIndex (colBase + j) m) < length vals
         then lanesLoop vectors start rowIndex colBase m slots (j + 1)
                (vals[unat (DBIndex rowIndex (colBase + j) m) := scast (vectors ! unat (start + j))])
         else Inl IndexOutOfRange)
      else Inr vals)"
  by pat_completeness auto
termination
  by (relation "measure (\<lambda>(vectors, start, rowIndex, colBase, m, slots, j, vals).
                  unat slots - unat j)")
     (auto, unat_arith)

declare lanesLoop.simps [simp del]

text \<open>Lines 224-233: the vectors \<open>x .. sz - 1\<close> of one cluster.\<close>

function rowsLoop ::
  "i8 list \<Rightarrow> u64 \<Rightarrow> u64 \<Rightarrow> u64 \<Rightarrow> u64 \<Rightarrow> u64 \<Rightarrow> u64 \<Rightarrow> u64 \<Rightarrow> u64 \<Rightarrow> u64 list \<Rightarrow>
     panic + (u64 \<times> u64 list)"
where
  "rowsLoop vectors colBase m slots l sz x start rowIndex vals =
     (if x < sz then
        (case lanesLoop vectors start rowIndex colBase m slots 0 vals of
           Inl e \<Rightarrow> Inl e
         | Inr vals' \<Rightarrow>
             if rowIndex + 1 > l then Inl RowOverflow
             else rowsLoop vectors colBase m slots l sz (x + 1) (start + slots) (rowIndex + 1) vals')
      else Inr (rowIndex, vals))"
  by pat_completeness auto
termination
  by (relation "measure (\<lambda>(vectors, colBase, m, slots, l, sz, x, start, rowIndex, vals).
                  unat sz - unat x)")
     (auto, unat_arith)

declare rowsLoop.simps [simp del]

text \<open>Lines 214-234: the clusters of one stripe, in the order the stripe lists them.\<close>

fun stripeLoop ::
  "Cluster list \<Rightarrow> u64 \<Rightarrow> u64 \<Rightarrow> u64 \<Rightarrow> u64 \<Rightarrow> u64 list \<Rightarrow> u64 \<Rightarrow> (u64 \<rightharpoonup> u64) \<Rightarrow> u64 list \<Rightarrow>
     panic + ((u64 \<rightharpoonup> u64) \<times> u64 list)"
where
  "stripeLoop clusters colBase m slots l [] rowIndex indexMap vals = Inr (indexMap, vals)"
| "stripeLoop clusters colBase m slots l (clusterIndex # rest) rowIndex indexMap vals =
     (case indexMap clusterIndex of
        Some v \<Rightarrow> Inl KeyShouldNotYetExist
      | None \<Rightarrow>
          if unat clusterIndex < length clusters then
            (let c = clusters ! unat clusterIndex in
             case rowsLoop (Vectors c) colBase m slots l (NumVectors c) 0 0 rowIndex vals of
               Inl e \<Rightarrow> Inl e
             | Inr (rowIndex', vals') \<Rightarrow>
                 stripeLoop clusters colBase m slots l rest rowIndex'
                   (indexMap(clusterIndex \<mapsto> DBIndex rowIndex colBase m)) vals')
          else Inl IndexOutOfRange)"

text \<open>Lines 212-235: the stripes from \<open>colIndex\<close> on.\<close>

fun colsLoop ::
  "Cluster list \<Rightarrow> u64 \<Rightarrow> u64 \<Rightarrow> u64 \<Rightarrow> nat \<Rightarrow> u64 list list \<Rightarrow> (u64 \<rightharpoonup> u64) \<Rightarrow> u64 list \<Rightarrow>
     panic + ((u64 \<rightharpoonup> u64) \<times> u64 list)"
where
  "colsLoop clusters m slots l colIndex [] indexMap vals = Inr (indexMap, vals)"
| "colsLoop clusters m slots l colIndex (colContents # rest) indexMap vals =
     (case stripeLoop clusters (slots * of_nat colIndex) m slots l colContents 0 indexMap vals of
        Inl e \<Rightarrow> Inl e
      | Inr (indexMap', vals') \<Rightarrow> colsLoop clusters m slots l (Suc colIndex) rest indexMap' vals')"

text \<open>
  Lines 186-235 of \<open>BuildVectorDatabase\<close>: packing, parameter selection and the filling
  of \<open>vals\<close>. A nil \<open>p\<close> enters the failure branch, whose \<open>Printf\<close> dereferences it.
  In \<open>uint64(1<<precBits)\<close> the shift is a 64-bit shift. The result lists
  \<open>cols\<close>, \<open>l\<close>, \<open>m\<close>, \<open>p\<close>, \<open>vals\<close> and \<open>indexMap\<close>.
\<close>

definition buildVals ::
  "'db Backend \<Rightarrow> Metadata \<Rightarrow> Cluster list \<Rightarrow> nat list \<Rightarrow> u64 \<Rightarrow> u64 \<Rightarrow>
     panic + (u64 list list \<times> u64 \<times> u64 \<times> Params \<times> u64 list \<times> (u64 \<rightharpoonup> u64))"
where
  "buildVals backend metadata clusters clusterIndices hintSz precBits =
     (case PackClusters clusterIndices clusters (hintSz * 125) of
        Inl e \<Rightarrow> Inl e
      | Inr (cols, colSzs) \<Rightarrow>
          (let m = of_nat (length cols) * dim metadata;
               l = utils_Max colSzs
           in case NewParamsFixedP backend 64 m (push_bit 15 1) of
                None \<Rightarrow> Inl NilDereference
              | Some p \<Rightarrow>
                  if P p < push_bit (unat precBits) 1 \<or> Logq p \<noteq> 64 then Inl ParamFailure
                  else
                    (case colsLoop clusters m (dim metadata) l 0 cols Map.empty
                            (replicate (unat (l * m)) 0) of
                       Inl e \<Rightarrow> Inl e
                     | Inr (indexMap, vals) \<Rightarrow> Inr (cols, l, m, p, vals, indexMap))))"

text \<open>\<open>BuildVectorDatabase\<close> (lines 184-245).\<close>

definition BuildVectorDatabase ::
  "'db Backend \<Rightarrow> Metadata \<Rightarrow> Cluster list \<Rightarrow> nat list \<Rightarrow> u64 \<Rightarrow> u64 \<Rightarrow>
     panic + ('db \<times> (u64 \<rightharpoonup> u64))"
where
  "BuildVectorDatabase backend metadata clusters clusterIndices hintSz precBits =
     (case buildVals backend metadata clusters clusterIndices hintSz precBits of
        Inl e \<Rightarrow> Inl e
      | Inr (cols, l, m, p, vals, indexMap) \<Rightarrow>
          (let db = NewDatabaseFixedParams backend (l * m) 15 vals p
           in if Info_L backend db \<noteq> l then Inl DBInfoMismatch else Inr (db, indexMap)))"

text \<open>
  The first row of the \<open>k\<close>-th cluster of a stripe: the sizes of the clusters before it,
  added up the way \<open>rowIndex\<close> is.
\<close>

definition rowBase :: "Cluster list \<Rightarrow> u64 list \<Rightarrow> nat \<Rightarrow> u64" where
  "rowBase clusters colContents k =
     sum_list (map (\<lambda>cid. NumVectors (clusters ! unat cid)) (take k colContents))"

section \<open>writeResults\<close>

text \<open>
  \<open>protocol.VectorScore\<close> is declared in \<open>search/protocol\<close>; \<open>writeResults\<close> reads its
  fields \<open>ClusterID\<close> and \<open>IDWithinCluster\<close> and prints both with \<open>%d\<close>.
\<close>

record VectorScore =
  ClusterID :: u64
  IDWithinCluster :: u64

text \<open>
  A \<open>csv.Writer\<close> is the list of records it has taken; \<open>broken\<close> stands for a pending
  error of the file underneath, which makes \<open>Write\<close> return an error.
\<close>

record Writer =
  written :: "string list list"
  broken :: bool

definition csv_Write :: "Writer \<Rightarrow> string list \<Rightarrow> Writer option" where
  "csv_Write w line = (if broken w then None else Some (w\<lparr>written := written w @ [line]\<rparr>))"

function decimal :: "nat \<Rightarrow> string" where
  "decimal n =
     (if n < 10 then [char_of (48 + n)] else decimal (n div 10) @ [char_of (48 + n mod 10)])"
  by pat_completeness auto
termination
  by (relation "measure (\<lambda>n. n)") auto

declare decimal.simps [simp del]

text \<open>Lines 87-90: the entries \<open>2 * i\<close> and \<open>2 * i + 1\<close> of \<open>line\<close> for \<open>i < numRes\<close>.\<close>

function fillLine :: "VectorScore list \<Rightarrow> nat \<Rightarrow> nat \<Rightarrow> string list \<Rightarrow> panic + string list" where
  "fillLine scores numRes i line =
     (if i < numRes then
        (if i < length scores \<and> i * 2 + 1 < length line then
           fillLine scores numRes (Suc i)
             (line[i * 2 := decimal (unat (ClusterID (scores ! i))),
                   i * 2 + 1 := decimal (unat (IDWithinCluster (scores ! i)))])
         else Inl IndexOutOfRange)
      else Inr line)"
  by pat_completeness auto
termination
  by (relation "measure (\<lambda>(scores, numRes, i, line). numRes - i)") auto

declare fillLine.simps [simp del]

text \<open>
  \<open>writeResults\<close> (lines 78-112). \<open>k\<close> and \<open>numRes\<close> are Go \<open>int\<close>s: 64-bit words compared
  as signed numbers. \<open>perfLine\<close> is the formatted performance record; the formatting of
  durations is outside the model. The result is the panic, if any, and the two writers
  as the call leaves them.
\<close>

definition writeResults ::
  "Writer \<Rightarrow> Writer \<Rightarrow> VectorScore list \<Rightarrow> 64 word \<Rightarrow> string list \<Rightarrow> panic option \<times> Writer \<times> Writer"
where
  "writeResults writer perfWriter scores k perfLine =
     (if length scores = 0 then (Some NoScoresToWrite, writer, perfWriter)
      else
        (let numRes = (if of_nat (length scores) <s k then of_nat (length scores) else k)
         in if sint (numRes * 2) < 0 then (Some MakeSliceLenOutOfRange, writer, perfWriter)
            else
              (case fillLine scores (nat (sint numRes)) 0 (replicate (unat (numRes * 2)) []) of
                 Inl e \<Rightarrow> (Some e, writer, perfWriter)
               | Inr line \<Rightarrow>
                   (case csv_Write writer line of
                      None \<Rightarrow> (Some OutputWriteError, writer, perfWriter)
                    | Some writer' \<Rightarrow>
                        (case csv_Write perfWriter perfLine of
                           None \<Rightarrow> (Some PerfWriteError, writer', perfWriter)
                         | Some perfWriter' \<Rightarrow> (None, writer', perfWriter'))))))"

text \<open>
  The number of rows the clusters of a stripe take, as a natural number, and the
  condition under which none of the 64-bit computations of \<open>BuildVectorDatabase\<close> wraps
  around: the number of vectors plus one, times the number of clusters, times the
  dimension, stays below \<open>2 ^ 64\<close>.
\<close>

definition stripeRows :: "Cluster list \<Rightarrow> u64 list \<Rightarrow> nat" where
  "stripeRows clusters colContents =
     sum_list (map (\<lambda>cid. unat (NumVectors (clusters ! unat cid))) colContents)"

definition fits_u64 :: "Cluster list \<Rightarrow> u64 \<Rightarrow> bool" where
  "fits_u64 clusters d \<longleftrightarrow>
     (sum_list (map (\<lambda>c. unat (NumVectors c)) clusters) + 1) * (length clusters * unat d) < 2 ^ 64"

section \<open>Example inputs\<close>

text \<open>
  Scenario S3 of the specification (cluster sizes 10, 9, 5, 5, 5), thirteen clusters with
  equal sizes among them, and the two clusters of scenario S1 with their files.
\<close>

definition mkCluster :: "u64 \<Rightarrow> u64 \<Rightarrow> Cluster" where
  "mkCluster idx n = \<lparr>Index = idx, NumVectors = n, Dim = 0, PrecBits = 5, Vectors = []\<rparr>"

definition packing_example :: "Cluster list" where
  "packing_example = [mkCluster 0 10, mkCluster 1 9, mkCluster 2 5, mkCluster 3 5, mkCluster 4 5]"

definition ties_example :: "Cluster list" where
  "ties_example =
     [mkCluster 0 1, mkCluster 1 2, mkCluster 2 2, mkCluster 3 2, mkCluster 4 2, mkCluster 5 2,
      mkCluster 6 2, mkCluster 7 2, mkCluster 8 2, mkCluster 9 2, mkCluster 10 2, mkCluster 11 2,
      mkCluster 12 2]"

definition example_files :: "u64 \<Rightarrow> i8 list list option" where
  "example_files i =
     (if i = 0 then Some [[1, 1, 1, 1], [2, 0, 0, 0]]
      else if i = 1 then Some [[- 1, - 1, - 1, - 1]]
      else None)"

definition example_metadata :: Metadata where
  "example_metadata = \<lparr>num_vectors = 3, dim = 4, num_clusters = 2\<rparr>"

definition example_clusters :: "Cluster list" where
  "example_clusters =
     [\<lparr>Index = 0, NumVectors = 2, Dim = 4, PrecBits = 3, Vectors = [1, 1, 1, 1, 2, 0, 0, 0]\<rparr>,
      \<lparr>Index = 1, NumVectors = 1, Dim = 4, PrecBits = 3, Vectors = [- 1, - 1, - 1, - 1]\<rparr>]"

text \<open>
  A stand-in for the backend, to run the model on examples: parameter selection returns
  the requested modulus, the database keeps the matrix as it is, and its number of rows is
  the number of entries divided by the number of columns.
\<close>

definition toy_backend :: "(u64 \<times> u64 \<times> u64 list) Backend" where
  "toy_backend =
     \<lparr>NewParamsFixedP = (\<lambda>logq m p. Some \<lparr>M = m, P = p, Logq = logq\<rparr>),
      NewDatabaseFixedParams = (\<lambda>num recordLen vals p. (num, M p, vals)),
      Info_L = (\<lambda>(num, m, vals). if m = 0 then 0 else num div m)\<rparr>"


section \<open>PackClusters computes the packing of the specification\<close>

lemma rowCount_snoc:
  "rowCount clusters (s @ [i]) = rowCount clusters s + NumVectors (clusters ! i)"
  by (simp add: rowCount_def)

lemma place_nofit:
  "\<forall>s \<in> set ss. \<not> rowCount clusters s + NumVectors (clusters ! i) < cap \<Longrightarrow>
   place clusters cap i ss = ss @ [[i]]"
  by (induction ss) auto

lemma place_fit:
  "\<exists>s \<in> set ss. rowCount clusters s + NumVectors (clusters ! i) < cap \<Longrightarrow>
   length (place clusters cap i ss) = length ss"
  by (induction ss) auto

lemma idsOf_update:
  "j < length ss \<Longrightarrow>
   (idsOf clusters ss)[j := idsOf clusters ss ! j @ [Index (clusters ! i)]] =
   idsOf clusters (ss[j := ss ! j @ [i]])"
  by (simp add: idsOf_def map_update)

lemma rowCounts_update:
  "j < length ss \<Longrightarrow>
   (rowCounts clusters ss)[j := rowCounts clusters ss ! j + NumVectors (clusters ! i)] =
   rowCounts clusters (ss[j := ss ! j @ [i]])"
  by (simp add: rowCounts_def map_update rowCount_snoc)

lemma fitLoop_place:
  "j \<le> length ss \<Longrightarrow>
   fitLoop cap (NumVectors (clusters ! i)) (Index (clusters ! i)) j
     (idsOf clusters ss) (rowCounts clusters ss) =
   (if \<exists>s \<in> set (drop j ss). rowCount clusters s + NumVectors (clusters ! i) < cap
    then Inr (idsOf clusters (take j ss @ place clusters cap i (drop j ss)),
              rowCounts clusters (take j ss @ place clusters cap i (drop j ss)), True)
    else Inr (idsOf clusters ss, rowCounts clusters ss, False))"
proof (induction "length ss - j" arbitrary: j)
  case 0
  then have "j = length ss" by simp
  then show ?case
    by (subst fitLoop.simps) (simp add: idsOf_def)
next
  case (Suc d)
  then have j: "j < length ss" by simp
  have dr: "drop j ss = ss ! j # drop (Suc j) ss"
    using j by (simp add: Cons_nth_drop_Suc)
  have len: "j < length (idsOf clusters ss)" "j < length (rowCounts clusters ss)"
    using j by (simp_all add: idsOf_def rowCounts_def)
  have nthc: "rowCounts clusters ss ! j = rowCount clusters (ss ! j)"
    using j by (simp add: rowCounts_def)
  show ?case
  proof (cases "rowCount clusters (ss ! j) + NumVectors (clusters ! i) < cap")
    case True
    have pl: "take j ss @ place clusters cap i (drop j ss) = ss[j := ss ! j @ [i]]"
      using True j by (simp add: dr upd_conv_take_nth_drop)
    have "fitLoop cap (NumVectors (clusters ! i)) (Index (clusters ! i)) j
            (idsOf clusters ss) (rowCounts clusters ss) =
          Inr ((idsOf clusters ss)[j := idsOf clusters ss ! j @ [Index (clusters ! i)]],
               (rowCounts clusters ss)[j := rowCounts clusters ss ! j + NumVectors (clusters ! i)],
               True)"
      using True len nthc by (subst fitLoop.simps) simp
    moreover have "\<exists>s \<in> set (drop j ss). rowCount clusters s + NumVectors (clusters ! i) < cap"
      using True by (simp add: dr)
    ultimately show ?thesis
      using j by (simp only: pl idsOf_update rowCounts_update if_True)
  next
    case False
    have step: "fitLoop cap (NumVectors (clusters ! i)) (Index (clusters ! i)) j
            (idsOf clusters ss) (rowCounts clusters ss) =
          fitLoop cap (NumVectors (clusters ! i)) (Index (clusters ! i)) (Suc j)
            (idsOf clusters ss) (rowCounts clusters ss)"
      using False len nthc by (subst fitLoop.simps) simp
    have ih: "fitLoop cap (NumVectors (clusters ! i)) (Index (clusters ! i)) (Suc j)
            (idsOf clusters ss) (rowCounts clusters ss) =
       (if \<exists>s \<in> set (drop (Suc j) ss). rowCount clusters s + NumVectors (clusters ! i) < cap
        then Inr (idsOf clusters (take (Suc j) ss @ place clusters cap i (drop (Suc j) ss)),
              rowCounts clusters (take (Suc j) ss @ place clusters cap i (drop (Suc j) ss)), True)
        else Inr (idsOf clusters ss, rowCounts clusters ss, False))"
      using Suc.hyps(1) [of "Suc j"] Suc.hyps(2) j by simp
    have tk: "take (Suc j) ss = take j ss @ [ss ! j]"
      using j by (simp add: take_Suc_conv_app_nth)
    show ?thesis
      using False by (simp add: step ih dr tk)
  qed
qed

lemma fitLoop_place0:
  "fitLoop cap (NumVectors (clusters ! i)) (Index (clusters ! i)) 0
     (idsOf clusters ss) (rowCounts clusters ss) =
   (if length (place clusters cap i ss) = length ss
    then Inr (idsOf clusters (place clusters cap i ss), rowCounts clusters (place clusters cap i ss), True)
    else Inr (idsOf clusters ss, rowCounts clusters ss, False))"
proof (cases "\<exists>s \<in> set ss. rowCount clusters s + NumVectors (clusters ! i) < cap")
  case True
  then show ?thesis
    using fitLoop_place [of 0 ss cap clusters i] place_fit [of ss clusters i cap] by simp
next
  case False
  then have "place clusters cap i ss = ss @ [[i]]"
    using place_nofit by blast
  then show ?thesis
    using False fitLoop_place [of 0 ss cap clusters i] by simp
qed

lemma place_cases:
  "length (place clusters cap i ss) = length ss \<or> place clusters cap i ss = ss @ [[i]]"
  using place_fit [of ss clusters i cap] place_nofit [of ss clusters i cap] by blast

lemma packLoop_foldl:
  assumes "length ci = length clusters" "\<forall>k < length ci. ci ! k < length clusters"
  shows "i \<le> length clusters \<Longrightarrow>
         packLoop clusters ci cap i (idsOf clusters ss) (rowCounts clusters ss) =
         Inr (idsOf clusters (foldl (\<lambda>ss k. place clusters cap k ss) ss (drop i ci)),
              rowCounts clusters (foldl (\<lambda>ss k. place clusters cap k ss) ss (drop i ci)))"
proof (induction "length clusters - i" arbitrary: i ss)
  case 0
  then show ?case
    using assms by (subst packLoop.simps) simp
next
  case (Suc d)
  then have i: "i < length clusters" by simp
  then have ici: "i < length ci" "ci ! i < length clusters"
    using assms by simp_all
  have dr: "drop i ci = ci ! i # drop (Suc i) ci"
    using ici by (simp add: Cons_nth_drop_Suc)
  have ih: "\<And>ss'. packLoop clusters ci cap (Suc i) (idsOf clusters ss') (rowCounts clusters ss') =
         Inr (idsOf clusters (foldl (\<lambda>ss k. place clusters cap k ss) ss' (drop (Suc i) ci)),
              rowCounts clusters (foldl (\<lambda>ss k. place clusters cap k ss) ss' (drop (Suc i) ci)))"
    using Suc.hyps(1) [of "Suc i"] Suc.hyps(2) i by simp
  have app: "idsOf clusters ss @ [[Index (clusters ! (ci ! i))]] = idsOf clusters (ss @ [[ci ! i]])"
            "rowCounts clusters ss @ [NumVectors (clusters ! (ci ! i))] = rowCounts clusters (ss @ [[ci ! i]])"
    by (simp_all add: idsOf_def rowCounts_def rowCount_def)
  show ?case
  proof (cases "length (place clusters cap (ci ! i) ss) = length ss")
    case True
    show ?thesis
      using i ici True
      by (subst packLoop.simps) (simp add: Let_def fitLoop_place0 ih dr)
  next
    case False
    then have pl: "place clusters cap (ci ! i) ss = ss @ [[ci ! i]]"
      using place_cases by blast
    show ?thesis
      using i ici False
      by (subst packLoop.simps) (simp add: Let_def fitLoop_place0 app ih dr pl)
  qed
qed

lemma sort_Slice_postD:
  assumes "sort_Slice_post clusters ci"
  shows "length ci = length clusters" "distinct ci" "\<forall>k < length ci. ci ! k < length clusters"
        "\<forall>i \<in> set ci. i < length clusters"
  using assms by (auto simp: sort_Slice_post_def list_all_iff)

lemma PackClusters_ffd:
  assumes "clusters \<noteq> []" "sort_Slice_post clusters ci"
  shows "PackClusters ci clusters cap =
         Inr (idsOf clusters (ffd clusters ci cap), rowCounts clusters (ffd clusters ci cap))"
proof -
  note d = sort_Slice_postD [OF assms(2)]
  have ne: "ci \<noteq> []" using d(1) assms(1) by auto
  then have hd: "ci ! 0 = hd ci" by (simp add: hd_conv_nth)
  have c0: "0 < length ci" "ci ! 0 < length clusters" using ne d(3) by auto
  have init: "[[Index (clusters ! hd ci)]] = idsOf clusters [[hd ci]]"
             "[NumVectors (clusters ! hd ci)] = rowCounts clusters [[hd ci]]"
    by (simp_all add: idsOf_def rowCounts_def rowCount_def)
  have cap': "(if cap < NumVectors (clusters ! hd ci) then NumVectors (clusters ! hd ci) else cap)
              = raisedCap clusters ci cap"
    by (auto simp: raisedCap_def max_def)
  have "1 \<le> length clusters" using assms(1) by (cases clusters) auto
  then have "packLoop clusters ci (raisedCap clusters ci cap) 1 (idsOf clusters [[hd ci]]) (rowCounts clusters [[hd ci]])
      = Inr (idsOf clusters (ffd clusters ci cap), rowCounts clusters (ffd clusters ci cap))"
    using packLoop_foldl [OF d(1) d(3), of 1 "raisedCap clusters ci cap" "[[hd ci]]"]
    by (simp add: ffd_def drop_Suc)
  then show ?thesis
    using assms(1) c0 by (simp add: PackClusters_def Let_def hd cap' init del: One_nat_def)
qed

section \<open>Properties of the packing\<close>

subsection \<open>place and ffd\<close>

lemma place_not_Nil: "place clusters cap i ss \<noteq> []"
  by (cases ss) auto

lemma set_concat_place:
  "set (concat (place clusters cap i ss)) = insert i (set (concat ss))"
  by (induction ss) auto

lemma distinct_concat_place:
  "distinct (concat ss) \<Longrightarrow> i \<notin> set (concat ss) \<Longrightarrow> distinct (concat (place clusters cap i ss))"
proof (induction ss)
  case Nil
  then show ?case by simp
next
  case (Cons s ss)
  then have "distinct (concat (place clusters cap i ss))"
    and "set s \<inter> set (concat (place clusters cap i ss)) = {}"
    by (simp_all add: set_concat_place del: set_concat)
  with Cons.prems show ?case
    by (simp del: set_concat)
qed

lemma sum_rowCounts_place:
  "sum_list (rowCounts clusters (place clusters cap i ss)) =
   sum_list (rowCounts clusters ss) + NumVectors (clusters ! i)"
  by (induction ss) (auto simp: rowCounts_def rowCount_def)

lemma place_keeps_head:
  "place clusters cap i ((i0 # s) # rest) = (i0 # s) # place clusters cap i rest \<or>
   place clusters cap i ((i0 # s) # rest) = (i0 # s @ [i]) # rest"
  by simp

lemma subseq_snoc_right: "subseq s pre \<Longrightarrow> subseq s (pre @ [x])"
  using list_emb_append_mono [of "(=)" s pre "[]" "[x]"] by simp

lemma place_subseq:
  "\<forall>s \<in> set ss. subseq s pre \<Longrightarrow> \<forall>s \<in> set (place clusters cap x ss). subseq s (pre @ [x])"
proof (induction ss)
  case Nil
  have "subseq [x] (pre @ [x])"
    by (metis append_Nil list_emb_append2 subseq_order.order_refl)
  then show ?case by simp
next
  case (Cons s ss)
  then have a: "subseq s pre" and b: "\<forall>s \<in> set ss. subseq s pre" by simp_all
  have c: "subseq (s @ [x]) (pre @ [x])"
    using a by (intro list_emb_append_mono) simp_all
  have d: "subseq s (pre @ [x])"
    using a by (rule subseq_snoc_right)
  have e: "\<forall>s \<in> set ss. subseq s (pre @ [x])"
    using b by (simp add: subseq_snoc_right)
  show ?case
    using Cons.IH [OF b] c d e by simp
qed

lemma foldl_place_set:
  "set (concat (foldl (\<lambda>ss k. place clusters cap k ss) ss xs)) = set (concat ss) \<union> set xs"
  by (induction xs arbitrary: ss) (auto simp add: set_concat_place simp del: set_concat)

lemma foldl_place_distinct:
  "distinct (concat ss) \<Longrightarrow> distinct xs \<Longrightarrow> set xs \<inter> set (concat ss) = {} \<Longrightarrow>
   distinct (concat (foldl (\<lambda>ss k. place clusters cap k ss) ss xs))"
proof (induction xs arbitrary: ss)
  case Nil
  then show ?case by simp
next
  case (Cons x xs)
  have 1: "distinct (concat (place clusters cap x ss))"
    using Cons.prems by (intro distinct_concat_place) auto
  have 2: "set xs \<inter> set (concat (place clusters cap x ss)) = {}"
    using Cons.prems by (simp add: set_concat_place del: set_concat)
  show ?case
    using Cons.IH [OF 1 _ 2] Cons.prems(2) by simp
qed

lemma foldl_place_sum:
  "sum_list (rowCounts clusters (foldl (\<lambda>ss k. place clusters cap k ss) ss xs)) =
   sum_list (rowCounts clusters ss) + sum_list (map (\<lambda>i. NumVectors (clusters ! i)) xs)"
  by (induction xs arbitrary: ss) (simp_all add: sum_rowCounts_place add.assoc)

lemma foldl_place_head:
  "\<exists>s' rest'. foldl (\<lambda>ss k. place clusters cap k ss) ((i0 # s) # rest) xs = (i0 # s') # rest'"
proof (induction xs arbitrary: s rest)
  case Nil
  then show ?case by simp
next
  case (Cons x xs)
  from place_keeps_head [of clusters cap x i0 s rest]
  show ?case
  proof
    assume "place clusters cap x ((i0 # s) # rest) = (i0 # s) # place clusters cap x rest"
    then show ?thesis using Cons.IH [of s "place clusters cap x rest"] by simp
  next
    assume "place clusters cap x ((i0 # s) # rest) = (i0 # s @ [x]) # rest"
    then show ?thesis using Cons.IH [of "s @ [x]" rest] by simp
  qed
qed

lemma foldl_place_subseq:
  "\<forall>s \<in> set ss. subseq s pre \<Longrightarrow>
   \<forall>s \<in> set (foldl (\<lambda>ss k. place clusters cap k ss) ss xs). subseq s (pre @ xs)"
proof (induction xs arbitrary: ss pre)
  case Nil
  then show ?case by simp
next
  case (Cons x xs)
  have "\<forall>s \<in> set (place clusters cap x ss). subseq s (pre @ [x])"
    using Cons.prems by (rule place_subseq)
  from Cons.IH [OF this] show ?case by simp
qed

lemma ffd_set: "ci \<noteq> [] \<Longrightarrow> set (concat (ffd clusters ci cap)) = set ci"
proof -
  assume "ci \<noteq> []"
  then obtain a list where ci: "ci = a # list" by (cases ci) auto
  have "set (concat [[a]]) = {a}" by simp
  then show ?thesis
    by (simp add: ci ffd_def foldl_place_set del: set_concat)
qed

lemma ffd_distinct: "ci \<noteq> [] \<Longrightarrow> distinct ci \<Longrightarrow> distinct (concat (ffd clusters ci cap))"
  by (cases ci) (auto simp: ffd_def intro!: foldl_place_distinct)

lemma ffd_sum:
  "ci \<noteq> [] \<Longrightarrow>
   sum_list (rowCounts clusters (ffd clusters ci cap)) = sum_list (map (\<lambda>i. NumVectors (clusters ! i)) ci)"
proof -
  assume "ci \<noteq> []"
  then obtain a list where ci: "ci = a # list" by (cases ci) auto
  have "sum_list (rowCounts clusters [[a]]) = NumVectors (clusters ! a)"
    by (simp add: rowCounts_def rowCount_def)
  then show ?thesis
    by (simp add: ci ffd_def foldl_place_sum)
qed

lemma ffd_head: "\<exists>s rest. ffd clusters ci cap = (hd ci # s) # rest"
  unfolding ffd_def by (rule foldl_place_head)

lemma ffd_subseq: "ci \<noteq> [] \<Longrightarrow> \<forall>s \<in> set (ffd clusters ci cap). subseq s ci"
proof -
  assume "ci \<noteq> []"
  then have ci: "ci = [hd ci] @ tl ci" by simp
  have "\<forall>s \<in> set [[hd ci]]. subseq s [hd ci]" by simp
  from foldl_place_subseq [OF this, of clusters "raisedCap clusters ci cap" "tl ci"]
  show ?thesis unfolding ffd_def using ci by simp
qed

subsection \<open>What sort.Slice leaves\<close>

lemma sort_Slice_post_set:
  assumes "sort_Slice_post clusters ci"
  shows "set ci = {0..<length clusters}"
proof -
  note d = sort_Slice_postD [OF assms]
  have sub: "set ci \<subseteq> {0..<length clusters}" using d(4) by auto
  have "card (set ci) = length clusters"
    using d(1,2) by (simp add: distinct_card)
  then show ?thesis
    using sub by (simp add: card_subset_eq)
qed

lemma sort_Slice_post_sum:
  assumes "sort_Slice_post clusters ci"
  shows "sum_list (map (\<lambda>i. f (clusters ! i)) ci) = (sum_list (map f clusters) :: 'a :: comm_monoid_add)"
proof -
  note d = sort_Slice_postD [OF assms]
  have "sum_list (map (\<lambda>i. f (clusters ! i)) ci) = sum (\<lambda>i. f (clusters ! i)) (set ci)"
    using d(2) by (simp add: sum_list_distinct_conv_sum_set)
  also have "\<dots> = sum (\<lambda>i. f (clusters ! i)) {0..<length clusters}"
    by (simp add: sort_Slice_post_set [OF assms])
  also have "\<dots> = sum_list (map (\<lambda>i. f (clusters ! i)) [0..<length clusters])"
    by (simp add: sum_list_distinct_conv_sum_set)
  also have "\<dots> = sum_list (map f (map ((!) clusters) [0..<length clusters]))"
    by (simp add: comp_def)
  also have "\<dots> = sum_list (map f clusters)"
    by (simp only: map_nth)
  finally show ?thesis .
qed

lemma sort_Slice_post_descending:
  assumes "sort_Slice_post clusters ci"
  shows "sorted_wrt (\<lambda>a b. NumVectors (clusters ! b) \<le> NumVectors (clusters ! a)) ci"
proof -
  have "(\<lambda>a b. \<not> less_closure clusters b a) = (\<lambda>a b. NumVectors (clusters ! b) \<le> NumVectors (clusters ! a))"
    by (auto simp: less_closure_def fun_eq_iff)
  then show ?thesis
    using assms by (simp add: sort_Slice_post_def)
qed

lemma sort_Slice_post_hd_max:
  assumes "clusters \<noteq> []" "sort_Slice_post clusters ci"
  shows "hd ci < length clusters" "\<forall>c \<in> set clusters. NumVectors c \<le> NumVectors (clusters ! hd ci)"
proof -
  note d = sort_Slice_postD [OF assms(2)]
  have ne: "ci \<noteq> []" using d(1) assms(1) by auto
  then obtain x xs where ci: "ci = x # xs" by (cases ci) auto
  show "hd ci < length clusters" using d(4) ne by simp
  have "\<forall>k \<in> set ci. NumVectors (clusters ! k) \<le> NumVectors (clusters ! hd ci)"
    using sort_Slice_post_descending [OF assms(2)] by (auto simp: ci)
  then have "\<forall>k < length clusters. NumVectors (clusters ! k) \<le> NumVectors (clusters ! hd ci)"
    by (simp add: sort_Slice_post_set [OF assms(2)])
  then show "\<forall>c \<in> set clusters. NumVectors c \<le> NumVectors (clusters ! hd ci)"
    by (auto simp: in_set_conv_nth)
qed

section \<open>Properties of ReadAllClusters\<close>

subsection \<open>ReadAllClusters\<close>

lemma ReadClusterFromCsv_Index:
  "ReadClusterFromCsv file index d precBits = Inr c \<Longrightarrow> Index c = index"
  by (auto simp: ReadClusterFromCsv_def Let_def split: option.splits if_splits)

lemma readLoop_result:
  "readLoop files d precBits n i v cs = Inr (v', cs') \<Longrightarrow>
   \<exists>new. cs' = cs @ new \<and> v' = v + sum_list (map NumVectors new) \<and>
         (\<forall>k < length new. Index (new ! k) = i + of_nat k) \<and>
         length new = unat n - unat i"
proof (induction files d precBits n i v cs rule: readLoop.induct)
  case (1 files d precBits n i v cs)
  show ?case
  proof (cases "i < n")
    case False
    then have "unat n - unat i = 0" by (simp add: word_less_nat_alt)
    with False "1.prems" show ?thesis
      by (subst (asm) readLoop.simps) simp
  next
    case True
    from True "1.prems" obtain c where
      c: "ReadClusterFromCsv (files i) i d precBits = Inr c" and
      ok: "Dim c = d" "PrecBits c = precBits" and
      rec: "readLoop files d precBits n (i + 1) (v + NumVectors c) (cs @ [c]) = Inr (v', cs')"
      by (subst (asm) readLoop.simps) (auto split: sum.splits if_splits)
    from "1.IH" [OF True c _ _ rec] ok obtain new where
      new: "cs' = (cs @ [c]) @ new" "v' = (v + NumVectors c) + sum_list (map NumVectors new)"
           "\<forall>k < length new. Index (new ! k) = (i + 1) + of_nat k"
           "length new = unat n - unat (i + 1)"
      by auto
    have i1: "unat (i + 1) = Suc (unat i)" using True by unat_arith
    have lt: "unat i < unat n" using True by (simp add: word_less_nat_alt)
    have idx: "\<forall>k < length (c # new). Index ((c # new) ! k) = i + of_nat k"
    proof (intro allI impI)
      fix k assume "k < length (c # new)"
      then show "Index ((c # new) ! k) = i + of_nat k"
        using new(3) ReadClusterFromCsv_Index [OF c] by (cases k) (auto simp: add.assoc)
    qed
    have "cs' = cs @ (c # new)" using new(1) by simp
    moreover have "v' = v + sum_list (map NumVectors (c # new))"
      using new(2) by (simp add: add.assoc)
    moreover have "length (c # new) = unat n - unat i"
      using new(4) i1 lt by simp
    ultimately show ?thesis using idx by blast
  qed
qed

lemma ReadAllClusters_result:
  assumes "ReadAllClusters metadataFile files precBits = Inr (metadata, clusters)"
  shows "sum_list (map NumVectors clusters) = num_vectors metadata"
    and "\<forall>i < length clusters. unat (Index (clusters ! i)) = i"
    and "length clusters = unat (num_clusters metadata)"
proof -
  from assms obtain v where
    rl: "readLoop files (dim metadata) precBits (num_clusters metadata) 0 0 [] = Inr (v, clusters)"
    and v: "v = num_vectors metadata"
    by (auto simp: ReadAllClusters_def split: option.splits sum.splits if_splits)
  from readLoop_result [OF rl] have
    s: "v = sum_list (map NumVectors clusters)" and
    ix: "\<forall>k < length clusters. Index (clusters ! k) = of_nat k" and
    len: "length clusters = unat (num_clusters metadata)"
    by auto
  show "sum_list (map NumVectors clusters) = num_vectors metadata"
    using s v by simp
  show "length clusters = unat (num_clusters metadata)" by (rule len)
  show "\<forall>i < length clusters. unat (Index (clusters ! i)) = i"
  proof (intro allI impI)
    fix i assume i: "i < length clusters"
    then have "i \<le> unat (num_clusters metadata)"
      using len by simp
    then have "unat (of_nat i :: u64) = i"
      by (rule le_unat_uoi)
    then show "unat (Index (clusters ! i)) = i" using ix i by simp
  qed
qed

lemma index_positions_distinct:
  assumes "\<forall>i < length clusters. unat (Index (clusters ! i)) = i"
  shows "distinct (map Index clusters)"
proof -
  have "\<forall>i < length clusters. \<forall>j < length clusters. i \<noteq> j \<longrightarrow> Index (clusters ! i) \<noteq> Index (clusters ! j)"
    using assms by metis
  then show ?thesis
    by (simp add: distinct_conv_nth)
qed

subsection \<open>Looking a cluster up by its id\<close>

lemma find_by_Index:
  assumes "distinct (map Index clusters)" "i < length clusters"
  shows "find (\<lambda>c. Index c = Index (clusters ! i)) clusters = Some (clusters ! i)"
proof -
  have "\<forall>j < i. Index (clusters ! j) \<noteq> Index (clusters ! i)"
    using assms by (auto simp: distinct_conv_nth)
  then show ?thesis
    using assms(2) by (auto simp: find_Some_iff)
qed

lemma numVectorsOf_Index:
  "distinct (map Index clusters) \<Longrightarrow> i < length clusters \<Longrightarrow>
   numVectorsOf clusters (Index (clusters ! i)) = NumVectors (clusters ! i)"
  by (simp add: numVectorsOf_def find_by_Index)

lemma sum_numVectorsOf_stripe:
  assumes "distinct (map Index clusters)" "\<forall>i \<in> set s. i < length clusters"
  shows "sum_list (map (numVectorsOf clusters) (map (\<lambda>i. Index (clusters ! i)) s)) = rowCount clusters s"
  using assms(2) by (induction s) (simp_all add: rowCount_def numVectorsOf_Index [OF assms(1)])

lemma ffd_positions:
  assumes "clusters \<noteq> []" "sort_Slice_post clusters ci"
  shows "\<forall>s \<in> set (ffd clusters ci cap). \<forall>i \<in> set s. i < length clusters"
proof -
  note d = sort_Slice_postD [OF assms(2)]
  have ne: "ci \<noteq> []" using d(1) assms(1) by auto
  have "\<forall>s \<in> set (ffd clusters ci cap). set s \<subseteq> set (concat (ffd clusters ci cap))"
    by auto
  then show ?thesis
    using d(4) by (simp only: ffd_set [OF ne]) blast
qed

section \<open>The loops that fill the matrix: panics and keys\<close>

subsection \<open>Which panics the loops raise\<close>

lemma lanesLoop_panic:
  "lanesLoop vec start row colBase m slots j vals = Inl e \<Longrightarrow> e = IndexOutOfRange"
proof (induction vec start row colBase m slots j vals rule: lanesLoop.induct)
  case (1 vec start row colBase m slots j vals)
  from "1.prems" show ?case
    by (subst (asm) lanesLoop.simps) (auto split: if_splits intro: "1.IH")
qed

lemma rowsLoop_panic:
  "rowsLoop vec colBase m slots l sz x start row vals = Inl e \<Longrightarrow>
   e = IndexOutOfRange \<or> e = RowOverflow"
proof (induction vec colBase m slots l sz x start row vals rule: rowsLoop.induct)
  case (1 vec colBase m slots l sz x start row vals)
  show ?case
  proof (cases "x < sz")
    case False
    with "1.prems" show ?thesis by (subst (asm) rowsLoop.simps) simp
  next
    case True
    show ?thesis
    proof (cases "lanesLoop vec start row colBase m slots 0 vals")
      case (Inl e')
      with True "1.prems" have "e = e'" by (subst (asm) rowsLoop.simps) simp
      with Inl show ?thesis using lanesLoop_panic by blast
    next
      case (Inr vals1)
      show ?thesis
      proof (cases "row + 1 > l")
        case True
        with \<open>x < sz\<close> Inr "1.prems" show ?thesis by (subst (asm) rowsLoop.simps) simp
      next
        case False
        with \<open>x < sz\<close> Inr "1.prems" have
          "rowsLoop vec colBase m slots l sz (x + 1) (start + slots) (row + 1) vals1 = Inl e"
          by (subst (asm) rowsLoop.simps) simp
        from "1.IH" [OF \<open>x < sz\<close> Inr False this] show ?thesis .
      qed
    qed
  qed
qed



subsection \<open>The keys of indexMap\<close>

lemma stripeLoop_dom:
  "stripeLoop clusters colBase m slots l cc row im vals = Inr (im', vals') \<Longrightarrow>
   dom im' = dom im \<union> set cc"
proof (induction cc arbitrary: row im vals)
  case Nil
  then show ?case by simp
next
  case (Cons cid cc)
  from Cons.prems obtain row1 vals1 where
    rec: "stripeLoop clusters colBase m slots l cc row1 (im(cid \<mapsto> DBIndex row colBase m)) vals1
          = Inr (im', vals')"
    by (auto simp: Let_def split: option.splits if_splits sum.splits)
  from Cons.IH [OF rec] show ?case by auto
qed

lemma stripeLoop_no_duplicate:
  "distinct cc \<Longrightarrow> set cc \<inter> dom im = {} \<Longrightarrow>
   stripeLoop clusters colBase m slots l cc row im vals \<noteq> Inl KeyShouldNotYetExist"
proof (induction cc arbitrary: row im vals)
  case Nil
  then show ?case by simp
next
  case (Cons cid cc)
  have none: "im cid = None" using Cons.prems(2) by auto
  have d: "distinct cc" using Cons.prems(1) by simp
  have dj: "set cc \<inter> dom (im(cid \<mapsto> DBIndex row colBase m)) = {}"
    using Cons.prems by auto
  show ?case
  proof (cases "unat cid < length clusters")
    case False
    with none show ?thesis by simp
  next
    case True
    show ?thesis
    proof (cases "rowsLoop (Vectors (clusters ! unat cid)) colBase m slots l
                    (NumVectors (clusters ! unat cid)) 0 0 row vals")
      case (Inl e)
      then have "e \<noteq> KeyShouldNotYetExist" using rowsLoop_panic by blast
      with none True Inl show ?thesis by (simp add: Let_def)
    next
      case (Inr r)
      obtain row1 vals1 where r: "r = (row1, vals1)" by (cases r)
      have eq: "stripeLoop clusters colBase m slots l (cid # cc) row im vals =
            stripeLoop clusters colBase m slots l cc row1 (im(cid \<mapsto> DBIndex row colBase m)) vals1"
        using none True Inr r by (simp add: Let_def)
      have "stripeLoop clusters colBase m slots l cc row1 (im(cid \<mapsto> DBIndex row colBase m)) vals1
            \<noteq> Inl KeyShouldNotYetExist"
        by (rule Cons.IH [OF d dj])
      then show ?thesis unfolding eq .
    qed
  qed
qed

lemma colsLoop_no_duplicate:
  "distinct (concat cols) \<Longrightarrow> set (concat cols) \<inter> dom im = {} \<Longrightarrow>
   colsLoop clusters m slots l c cols im vals \<noteq> Inl KeyShouldNotYetExist"
proof (induction cols arbitrary: c im vals)
  case Nil
  then show ?case by simp
next
  case (Cons cc cols)
  have d1: "distinct cc" and d2: "distinct (concat cols)" and d3: "set cc \<inter> set (concat cols) = {}"
    using Cons.prems(1) by simp_all
  have dj: "set cc \<inter> dom im = {}" using Cons.prems(2) by auto
  show ?case
  proof (cases "stripeLoop clusters (slots * of_nat c) m slots l cc 0 im vals")
    case (Inl e)
    then have "e \<noteq> KeyShouldNotYetExist"
      using stripeLoop_no_duplicate [OF d1 dj] by auto
    then show ?thesis using Inl by simp
  next
    case (Inr r)
    obtain im1 vals1 where r: "r = (im1, vals1)" by (cases r)
    have "dom im1 = dom im \<union> set cc"
      using stripeLoop_dom Inr r by blast
    then have "set (concat cols) \<inter> dom im1 = {}"
      using Cons.prems(2) d3 by auto
    from Cons.IH [OF d2 this] show ?thesis using Inr r by simp
  qed
qed

lemma idsOf_ffd_distinct:
  assumes "clusters \<noteq> []" "sort_Slice_post clusters ci" "distinct (map Index clusters)"
  shows "distinct (concat (idsOf clusters (ffd clusters ci cap)))"
    and "set (concat (idsOf clusters (ffd clusters ci cap))) = Index ` set clusters"
proof -
  note d = sort_Slice_postD [OF assms(2)]
  have ne: "ci \<noteq> []" using d(1) assms(1) by auto
  have cc: "concat (idsOf clusters (ffd clusters ci cap)) =
            map (\<lambda>i. Index (clusters ! i)) (concat (ffd clusters ci cap))"
    by (simp add: idsOf_def map_concat)
  have inj: "inj_on (\<lambda>i. Index (clusters ! i)) {0..<length clusters}"
  proof (rule inj_onI)
    fix x y assume "x \<in> {0..<length clusters}" "y \<in> {0..<length clusters}"
      and "Index (clusters ! x) = Index (clusters ! y)"
    then show "x = y"
      using nth_eq_iff_index_eq [OF assms(3), of x y] by simp
  qed
  have st: "set (concat (ffd clusters ci cap)) = {0..<length clusters}"
    by (simp only: ffd_set [OF ne] sort_Slice_post_set [OF assms(2)])
  show "distinct (concat (idsOf clusters (ffd clusters ci cap)))"
    unfolding cc using ffd_distinct [OF ne d(2), of clusters cap] inj st
    by (simp add: distinct_map del: set_concat)
  have "set clusters = (!) clusters ` {0..<length clusters}"
    by (metis map_nth set_map set_upt)
  then have "(\<lambda>i. Index (clusters ! i)) ` {0..<length clusters} = Index ` set clusters"
    by (simp add: image_image)
  then show "set (concat (idsOf clusters (ffd clusters ci cap))) = Index ` set clusters"
    unfolding cc by (simp only: set_map st)
qed

lemma distinct_concat_unique_stripe:
  "distinct (concat xs) \<Longrightarrow> k1 < length xs \<Longrightarrow> k2 < length xs \<Longrightarrow>
   x \<in> set (xs ! k1) \<Longrightarrow> x \<in> set (xs ! k2) \<Longrightarrow> k1 = k2"
proof (induction xs arbitrary: k1 k2)
  case Nil
  then show ?case by simp
next
  case (Cons y ys)
  show ?case
  proof (cases k1)
    case 0
    show ?thesis
    proof (cases k2)
      case 0
      with \<open>k1 = 0\<close> show ?thesis by simp
    next
      case (Suc n)
      then have "x \<in> set (concat ys)" using Cons.prems(3,5) by auto
      moreover have "x \<in> set y" using Cons.prems(4) \<open>k1 = 0\<close> by simp
      ultimately show ?thesis using Cons.prems(1) by auto
    qed
  next
    case (Suc n1)
    show ?thesis
    proof (cases k2)
      case 0
      have "x \<in> set (concat ys)" using Cons.prems(2,4) Suc by auto
      moreover have "x \<in> set y" using Cons.prems(5) 0 by simp
      ultimately show ?thesis using Cons.prems(1) by auto
    next
      case (Suc n2)
      have "n1 = n2"
        using Cons.IH [of n1 n2] Cons.prems Suc \<open>k1 = Suc n1\<close> by simp
      then show ?thesis using Suc \<open>k1 = Suc n1\<close> by simp
    qed
  qed
qed

lemma distinct_count_list: "distinct xs \<Longrightarrow> x \<in> set xs \<Longrightarrow> count_list xs x = 1"
  by (induction xs) (auto simp: count_list_0_iff)

section \<open>What the loops write and what they leave alone\<close>

subsection \<open>Counting up in 64-bit words\<close>

lemma u64_succ_le: "(j :: u64) < n \<Longrightarrow> j \<le> j' \<Longrightarrow> j' \<noteq> j \<Longrightarrow> j + 1 \<le> j'"
  by unat_arith

lemma u64_le_succ: "(j :: u64) < n \<Longrightarrow> j + 1 \<le> j' \<Longrightarrow> j \<le> j' \<and> j' \<noteq> j"
  by unat_arith

lemma u64_rest_pos: "(x :: u64) < sz \<Longrightarrow> 0 < sz - x"
  by unat_arith

lemma u64_rest_succ: "(x :: u64) < sz \<Longrightarrow> i < sz - (x + 1) \<Longrightarrow> i + 1 < sz - x"
  by unat_arith

lemma u64_rest_pred: "(x :: u64) < sz \<Longrightarrow> i < sz - x \<Longrightarrow> i \<noteq> 0 \<Longrightarrow> i - 1 < sz - (x + 1)"
  by unat_arith

lemma u64_rest_unat: "(x :: u64) < sz \<Longrightarrow> unat (sz - (x + 1)) + 1 = unat (sz - x)"
  by unat_arith

subsection \<open>One row\<close>

lemma lanesLoop_result:
  "lanesLoop vec start row colBase m slots j vals = Inr vals' \<Longrightarrow>
   length vals' = length vals \<and>
   (\<forall>j'. j \<le> j' \<and> j' < slots \<longrightarrow>
      unat (start + j') < length vec \<and>
      unat (DBIndex row (colBase + j') m) < length vals \<and>
      vals' ! unat (DBIndex row (colBase + j') m) = scast (vec ! unat (start + j'))) \<and>
   (\<forall>k. (\<forall>j'. j \<le> j' \<and> j' < slots \<longrightarrow> k \<noteq> unat (DBIndex row (colBase + j') m)) \<longrightarrow>
      vals' ! k = vals ! k)"
proof (induction vec start row colBase m slots j vals rule: lanesLoop.induct)
  case (1 vec start row colBase m slots j vals)
  show ?case
  proof (cases "j < slots")
    case False
    with "1.prems" have "vals' = vals" by (subst (asm) lanesLoop.simps) simp
    with False show ?thesis by auto
  next
    case True
    let ?idx = "\<lambda>j'. unat (DBIndex row (colBase + j') m)"
    let ?vals1 = "vals[?idx j := scast (vec ! unat (start + j))]"
    from True "1.prems" have
      rng: "unat (start + j) < length vec" "?idx j < length vals" and
      rec: "lanesLoop vec start row colBase m slots (j + 1) ?vals1 = Inr vals'"
      by (subst (asm) lanesLoop.simps, simp split: if_splits)+
    from "1.IH" [OF True _ rec] rng have
      len: "length vals' = length vals" and
      wr: "\<forall>j'. j + 1 \<le> j' \<and> j' < slots \<longrightarrow>
             unat (start + j') < length vec \<and> ?idx j' < length vals \<and>
             vals' ! ?idx j' = scast (vec ! unat (start + j'))" and
      fr: "\<forall>k. (\<forall>j'. j + 1 \<le> j' \<and> j' < slots \<longrightarrow> k \<noteq> ?idx j') \<longrightarrow> vals' ! k = ?vals1 ! k"
      by simp_all
    have inj: "?idx j' \<noteq> ?idx j" if "j' \<noteq> j" for j'
      using that by (simp add: DBIndex_def word_unat_eq_iff [symmetric])
    have here: "vals' ! ?idx j = scast (vec ! unat (start + j))"
    proof -
      have "\<forall>j'. j + 1 \<le> j' \<and> j' < slots \<longrightarrow> ?idx j \<noteq> ?idx j'"
        using u64_le_succ [OF True] inj by metis
      then have "vals' ! ?idx j = ?vals1 ! ?idx j" using fr by blast
      then show ?thesis using rng(2) by simp
    qed
    have written: "\<forall>j'. j \<le> j' \<and> j' < slots \<longrightarrow>
      unat (start + j') < length vec \<and> ?idx j' < length vals \<and>
      vals' ! ?idx j' = scast (vec ! unat (start + j'))"
    proof (intro allI impI)
      fix j' assume a: "j \<le> j' \<and> j' < slots"
      show "unat (start + j') < length vec \<and> ?idx j' < length vals \<and>
            vals' ! ?idx j' = scast (vec ! unat (start + j'))"
      proof (cases "j' = j")
        case True
        then show ?thesis using rng here by simp
      next
        case False
        then have "j + 1 \<le> j'" using u64_succ_le [OF True] a by blast
        then show ?thesis using wr a by blast
      qed
    qed
    have frame: "\<forall>k. (\<forall>j'. j \<le> j' \<and> j' < slots \<longrightarrow> k \<noteq> ?idx j') \<longrightarrow> vals' ! k = vals ! k"
    proof (intro allI impI)
      fix k assume a: "\<forall>j'. j \<le> j' \<and> j' < slots \<longrightarrow> k \<noteq> ?idx j'"
      then have "\<forall>j'. j + 1 \<le> j' \<and> j' < slots \<longrightarrow> k \<noteq> ?idx j'"
        using u64_le_succ [OF True] by blast
      then have "vals' ! k = ?vals1 ! k" using fr by blast
      moreover have "k \<noteq> ?idx j" using a True by auto
      ultimately show "vals' ! k = vals ! k" by simp
    qed
    show ?thesis using len written frame by blast
  qed
qed


subsection \<open>The rows of one cluster\<close>

lemma rowsLoop_frame:
  "rowsLoop vec colBase m slots l sz x start row vals = Inr (row', vals') \<Longrightarrow>
   length vals' = length vals \<and>
   (x \<le> sz \<longrightarrow> row' = row + (sz - x)) \<and>
   (\<forall>k. (\<forall>i j. i < sz - x \<and> j < slots \<longrightarrow> k \<noteq> unat (DBIndex (row + i) (colBase + j) m)) \<longrightarrow>
      vals' ! k = vals ! k)"
proof (induction vec colBase m slots l sz x start row vals rule: rowsLoop.induct)
  case (1 vec colBase m slots l sz x start row vals)
  show ?case
  proof (cases "x < sz")
    case False
    with "1.prems" have "row' = row" "vals' = vals"
      by (subst (asm) rowsLoop.simps, simp)+
    moreover have "x \<le> sz \<longrightarrow> sz - x = 0" using False by auto
    ultimately show ?thesis by simp
  next
    case True
    from True "1.prems" obtain vals1 where
      ln: "lanesLoop vec start row colBase m slots 0 vals = Inr vals1" and
      nov: "\<not> row + 1 > l" and
      rec: "rowsLoop vec colBase m slots l sz (x + 1) (start + slots) (row + 1) vals1 = Inr (row', vals')"
      by (subst (asm) rowsLoop.simps) (auto split: sum.splits if_splits)
    from lanesLoop_result [OF ln] have
      len1: "length vals1 = length vals" and
      fr1: "\<forall>k. (\<forall>j'. j' < slots \<longrightarrow> k \<noteq> unat (DBIndex row (colBase + j') m)) \<longrightarrow> vals1 ! k = vals ! k"
      by simp_all
    from "1.IH" [OF True ln nov rec] have
      len2: "length vals' = length vals1" and
      row2: "x + 1 \<le> sz \<longrightarrow> row' = row + 1 + (sz - (x + 1))" and
      fr2: "\<forall>k. (\<forall>i j. i < sz - (x + 1) \<and> j < slots \<longrightarrow>
                       k \<noteq> unat (DBIndex (row + 1 + i) (colBase + j) m)) \<longrightarrow> vals' ! k = vals1 ! k"
      by simp_all
    have "x + 1 \<le> sz" using True by (rule inc_le)
    then have rw: "row' = row + (sz - x)" using row2 by simp
    have frame: "\<forall>k. (\<forall>i j. i < sz - x \<and> j < slots \<longrightarrow> k \<noteq> unat (DBIndex (row + i) (colBase + j) m)) \<longrightarrow>
      vals' ! k = vals ! k"
    proof (intro allI impI)
      fix k assume a: "\<forall>i j. i < sz - x \<and> j < slots \<longrightarrow> k \<noteq> unat (DBIndex (row + i) (colBase + j) m)"
      have "\<forall>i j. i < sz - (x + 1) \<and> j < slots \<longrightarrow> k \<noteq> unat (DBIndex (row + 1 + i) (colBase + j) m)"
      proof (intro allI impI)
        fix i j assume b: "i < sz - (x + 1) \<and> j < slots"
        then have "i + 1 < sz - x" using u64_rest_succ [OF True] by blast
        with a b have "k \<noteq> unat (DBIndex (row + (i + 1)) (colBase + j) m)" by blast
        then show "k \<noteq> unat (DBIndex (row + 1 + i) (colBase + j) m)" by (simp add: ac_simps)
      qed
      then have "vals' ! k = vals1 ! k" using fr2 by blast
      moreover have "\<forall>j'. j' < slots \<longrightarrow> k \<noteq> unat (DBIndex row (colBase + j') m)"
        using a u64_rest_pos [OF True] by (metis add.right_neutral)
      ultimately show "vals' ! k = vals ! k" using fr1 by simp
    qed
    show ?thesis using len1 len2 rw frame by simp
  qed
qed

subsection \<open>The clusters of one stripe\<close>

lemma rowBase_0: "rowBase clusters cc 0 = 0"
  by (simp add: rowBase_def)

lemma rowBase_Cons_Suc:
  "rowBase clusters (cid # cc) (Suc k) = NumVectors (clusters ! unat cid) + rowBase clusters cc k"
  by (simp add: rowBase_def)

lemma stripeLoop_frame:
  "stripeLoop clusters colBase m slots l cc row im vals = Inr (im', vals') \<Longrightarrow>
   length vals' = length vals \<and>
   distinct cc \<and> set cc \<inter> dom im = {} \<and>
   (\<forall>k < length cc. unat (cc ! k) < length clusters \<and>
        im' (cc ! k) = Some (DBIndex (row + rowBase clusters cc k) colBase m)) \<and>
   (\<forall>key. key \<notin> set cc \<longrightarrow> im' key = im key) \<and>
   (\<forall>idx. (\<forall>k i j. k < length cc \<and> i < NumVectors (clusters ! unat (cc ! k)) \<and> j < slots \<longrightarrow>
                idx \<noteq> unat (DBIndex (row + rowBase clusters cc k + i) (colBase + j) m)) \<longrightarrow>
      vals' ! idx = vals ! idx)"
proof (induction cc arbitrary: row im vals)
  case Nil
  then show ?case by simp
next
  case (Cons cid cc)
  let ?c = "clusters ! unat cid"
  from Cons.prems obtain row1 vals1 where
    none: "im cid = None" and
    rng: "unat cid < length clusters" and
    rl: "rowsLoop (Vectors ?c) colBase m slots l (NumVectors ?c) 0 0 row vals = Inr (row1, vals1)" and
    rec: "stripeLoop clusters colBase m slots l cc row1 (im(cid \<mapsto> DBIndex row colBase m)) vals1
          = Inr (im', vals')"
    by (auto simp: Let_def split: option.splits if_splits sum.splits)
  from rowsLoop_frame [OF rl] have
    len1: "length vals1 = length vals" and
    row1: "row1 = row + NumVectors ?c" and
    fr1: "\<forall>k. (\<forall>i j. i < NumVectors ?c \<and> j < slots \<longrightarrow>
                  k \<noteq> unat (DBIndex (row + i) (colBase + j) m)) \<longrightarrow> vals1 ! k = vals ! k"
    by simp_all
  from Cons.IH [OF rec] have
    len2: "length vals' = length vals1" and
    di: "distinct cc" and
    dj: "set cc \<inter> dom (im(cid \<mapsto> DBIndex row colBase m)) = {}" and
    ks: "\<forall>k < length cc. unat (cc ! k) < length clusters \<and>
           im' (cc ! k) = Some (DBIndex (row1 + rowBase clusters cc k) colBase m)" and
    oth: "\<forall>key. key \<notin> set cc \<longrightarrow> im' key = (im(cid \<mapsto> DBIndex row colBase m)) key" and
    fr2: "\<forall>idx. (\<forall>k i j. k < length cc \<and> i < NumVectors (clusters ! unat (cc ! k)) \<and> j < slots \<longrightarrow>
                idx \<noteq> unat (DBIndex (row1 + rowBase clusters cc k + i) (colBase + j) m)) \<longrightarrow>
            vals' ! idx = vals1 ! idx"
    by blast+
  have notin: "cid \<notin> set cc" using dj by auto
  have d: "distinct (cid # cc)" using di notin by simp
  have e: "set (cid # cc) \<inter> dom im = {}" using dj none by auto
  have keys: "\<forall>k < length (cid # cc). unat ((cid # cc) ! k) < length clusters \<and>
        im' ((cid # cc) ! k) = Some (DBIndex (row + rowBase clusters (cid # cc) k) colBase m)"
  proof (intro allI impI)
    fix k assume "k < length (cid # cc)"
    show "unat ((cid # cc) ! k) < length clusters \<and>
        im' ((cid # cc) ! k) = Some (DBIndex (row + rowBase clusters (cid # cc) k) colBase m)"
    proof (cases k)
      case 0
      then show ?thesis using rng oth notin by (simp add: rowBase_0)
    next
      case (Suc n)
      then have "n < length cc" using \<open>k < length (cid # cc)\<close> by simp
      then show ?thesis using ks Suc row1 by (simp add: rowBase_Cons_Suc add.assoc)
    qed
  qed
  have others: "\<forall>key. key \<notin> set (cid # cc) \<longrightarrow> im' key = im key"
    using oth by simp
  have frame: "\<forall>idx. (\<forall>k i j. k < length (cid # cc) \<and>
                 i < NumVectors (clusters ! unat ((cid # cc) ! k)) \<and> j < slots \<longrightarrow>
                idx \<noteq> unat (DBIndex (row + rowBase clusters (cid # cc) k + i) (colBase + j) m)) \<longrightarrow>
      vals' ! idx = vals ! idx"
  proof (intro allI impI)
    fix idx
    assume a: "\<forall>k i j. k < length (cid # cc) \<and>
                 i < NumVectors (clusters ! unat ((cid # cc) ! k)) \<and> j < slots \<longrightarrow>
                idx \<noteq> unat (DBIndex (row + rowBase clusters (cid # cc) k + i) (colBase + j) m)"
    have "\<forall>k i j. k < length cc \<and> i < NumVectors (clusters ! unat (cc ! k)) \<and> j < slots \<longrightarrow>
                idx \<noteq> unat (DBIndex (row1 + rowBase clusters cc k + i) (colBase + j) m)"
    proof (intro allI impI)
      fix k i j
      assume b: "k < length cc \<and> i < NumVectors (clusters ! unat (cc ! k)) \<and> j < slots"
      then have "idx \<noteq> unat (DBIndex (row + rowBase clusters (cid # cc) (Suc k) + i) (colBase + j) m)"
        using a [rule_format, of "Suc k" i j] by simp
      then show "idx \<noteq> unat (DBIndex (row1 + rowBase clusters cc k + i) (colBase + j) m)"
        by (simp add: rowBase_Cons_Suc row1 add.assoc)
    qed
    then have "vals' ! idx = vals1 ! idx" using fr2 by blast
    moreover have "\<forall>i j. i < NumVectors ?c \<and> j < slots \<longrightarrow>
                  idx \<noteq> unat (DBIndex (row + i) (colBase + j) m)"
      using a [rule_format, of 0] by (simp add: rowBase_0)
    ultimately show "vals' ! idx = vals ! idx" using fr1 by simp
  qed
  show ?case using len1 len2 d e keys others frame by simp
qed


subsection \<open>All stripes\<close>

lemma colsLoop_frame:
  "colsLoop clusters m slots l c0 cols im vals = Inr (im', vals') \<Longrightarrow>
   length vals' = length vals \<and>
   distinct (concat cols) \<and> set (concat cols) \<inter> dom im = {} \<and>
   (\<forall>c < length cols. \<forall>k < length (cols ! c).
        unat (cols ! c ! k) < length clusters \<and>
        im' (cols ! c ! k) =
          Some (DBIndex (rowBase clusters (cols ! c) k) (slots * of_nat (c0 + c)) m)) \<and>
   (\<forall>key. key \<notin> set (concat cols) \<longrightarrow> im' key = im key) \<and>
   (\<forall>idx. (\<forall>c k i j. c < length cols \<and> k < length (cols ! c) \<and>
                i < NumVectors (clusters ! unat (cols ! c ! k)) \<and> j < slots \<longrightarrow>
                idx \<noteq> unat (DBIndex (rowBase clusters (cols ! c) k + i)
                                (slots * of_nat (c0 + c) + j) m)) \<longrightarrow>
      vals' ! idx = vals ! idx)"
proof (induction cols arbitrary: c0 im vals)
  case Nil
  then show ?case by simp
next
  case (Cons cc cols)
  from Cons.prems obtain im1 vals1 where
    st: "stripeLoop clusters (slots * of_nat c0) m slots l cc 0 im vals = Inr (im1, vals1)" and
    rec: "colsLoop clusters m slots l (Suc c0) cols im1 vals1 = Inr (im', vals')"
    by (auto split: sum.splits)
  from stripeLoop_frame [OF st] have
    len1: "length vals1 = length vals" and
    d1: "distinct cc" and e1: "set cc \<inter> dom im = {}" and
    k1: "\<forall>k < length cc. unat (cc ! k) < length clusters \<and>
           im1 (cc ! k) = Some (DBIndex (rowBase clusters cc k) (slots * of_nat c0) m)" and
    o1: "\<forall>key. key \<notin> set cc \<longrightarrow> im1 key = im key" and
    fr1: "\<forall>idx. (\<forall>k i j. k < length cc \<and> i < NumVectors (clusters ! unat (cc ! k)) \<and> j < slots \<longrightarrow>
                idx \<noteq> unat (DBIndex (rowBase clusters cc k + i) (slots * of_nat c0 + j) m)) \<longrightarrow>
            vals1 ! idx = vals ! idx"
    by simp_all
  have dom1: "dom im1 = dom im \<union> set cc"
    by (rule stripeLoop_dom [OF st])
  from Cons.IH [OF rec] have
    len2: "length vals' = length vals1" and
    d2: "distinct (concat cols)" and e2: "set (concat cols) \<inter> dom im1 = {}" and
    k2: "\<forall>c < length cols. \<forall>k < length (cols ! c).
           unat (cols ! c ! k) < length clusters \<and>
           im' (cols ! c ! k) =
             Some (DBIndex (rowBase clusters (cols ! c) k) (slots * of_nat (Suc c0 + c)) m)" and
    o2: "\<forall>key. key \<notin> set (concat cols) \<longrightarrow> im' key = im1 key" and
    fr2: "\<forall>idx. (\<forall>c k i j. c < length cols \<and> k < length (cols ! c) \<and>
                i < NumVectors (clusters ! unat (cols ! c ! k)) \<and> j < slots \<longrightarrow>
                idx \<noteq> unat (DBIndex (rowBase clusters (cols ! c) k + i)
                                (slots * of_nat (Suc c0 + c) + j) m)) \<longrightarrow>
            vals' ! idx = vals1 ! idx"
    by blast+
  have disj: "set cc \<inter> set (concat cols) = {}" using e2 dom1 by auto
  have d: "distinct (concat (cc # cols))" using d1 d2 disj by simp
  have e: "set (concat (cc # cols)) \<inter> dom im = {}" using e1 e2 dom1 by auto
  have keys: "\<forall>c < length (cc # cols). \<forall>k < length ((cc # cols) ! c).
        unat ((cc # cols) ! c ! k) < length clusters \<and>
        im' ((cc # cols) ! c ! k) =
          Some (DBIndex (rowBase clusters ((cc # cols) ! c) k) (slots * of_nat (c0 + c)) m)"
  proof (intro allI impI)
    fix c k assume c: "c < length (cc # cols)" and k: "k < length ((cc # cols) ! c)"
    show "unat ((cc # cols) ! c ! k) < length clusters \<and>
        im' ((cc # cols) ! c ! k) =
          Some (DBIndex (rowBase clusters ((cc # cols) ! c) k) (slots * of_nat (c0 + c)) m)"
    proof (cases c)
      case 0
      then have kk: "k < length cc" using k by simp
      then have "cc ! k \<notin> set (concat cols)" using disj by (meson disjoint_iff nth_mem)
      then have "im' (cc ! k) = im1 (cc ! k)" using o2 by blast
      then show ?thesis using k1 kk 0 by simp
    next
      case (Suc n)
      then have "n < length cols" "k < length (cols ! n)" using c k by simp_all
      then show ?thesis using k2 Suc by simp
    qed
  qed
  have others: "\<forall>key. key \<notin> set (concat (cc # cols)) \<longrightarrow> im' key = im key"
    using o1 o2 by simp
  have frame: "\<forall>idx. (\<forall>c k i j. c < length (cc # cols) \<and> k < length ((cc # cols) ! c) \<and>
                i < NumVectors (clusters ! unat ((cc # cols) ! c ! k)) \<and> j < slots \<longrightarrow>
                idx \<noteq> unat (DBIndex (rowBase clusters ((cc # cols) ! c) k + i)
                                (slots * of_nat (c0 + c) + j) m)) \<longrightarrow>
      vals' ! idx = vals ! idx"
  proof (intro allI impI)
    fix idx
    assume a: "\<forall>c k i j. c < length (cc # cols) \<and> k < length ((cc # cols) ! c) \<and>
                i < NumVectors (clusters ! unat ((cc # cols) ! c ! k)) \<and> j < slots \<longrightarrow>
                idx \<noteq> unat (DBIndex (rowBase clusters ((cc # cols) ! c) k + i)
                                (slots * of_nat (c0 + c) + j) m)"
    have "\<forall>c k i j. c < length cols \<and> k < length (cols ! c) \<and>
                i < NumVectors (clusters ! unat (cols ! c ! k)) \<and> j < slots \<longrightarrow>
                idx \<noteq> unat (DBIndex (rowBase clusters (cols ! c) k + i)
                                (slots * of_nat (Suc c0 + c) + j) m)"
    proof (intro allI impI)
      fix c k i j
      assume b: "c < length cols \<and> k < length (cols ! c) \<and>
                i < NumVectors (clusters ! unat (cols ! c ! k)) \<and> j < slots"
      then show "idx \<noteq> unat (DBIndex (rowBase clusters (cols ! c) k + i)
                                (slots * of_nat (Suc c0 + c) + j) m)"
        using a [rule_format, of "Suc c" k i j] by simp
    qed
    then have "vals' ! idx = vals1 ! idx" using fr2 by blast
    moreover have "\<forall>k i j. k < length cc \<and> i < NumVectors (clusters ! unat (cc ! k)) \<and> j < slots \<longrightarrow>
                idx \<noteq> unat (DBIndex (rowBase clusters cc k + i) (slots * of_nat c0 + j) m)"
    proof (intro allI impI)
      fix k i j
      assume "k < length cc \<and> i < NumVectors (clusters ! unat (cc ! k)) \<and> j < slots"
      then show "idx \<noteq> unat (DBIndex (rowBase clusters cc k + i) (slots * of_nat c0 + j) m)"
        using a [rule_format, of 0 k i j] by simp
    qed
    ultimately show "vals' ! idx = vals ! idx" using fr1 by simp
  qed
  show ?case using len1 len2 d e keys others frame by simp
qed

section \<open>Cells, values and rows without wrap-around\<close>

subsection \<open>Cells of the matrix as natural numbers\<close>

lemma unat_sum_list:
  "sum_list (map unat xs) < 2 ^ 64 \<Longrightarrow> unat (sum_list xs :: u64) = sum_list (map unat xs)"
proof (induction xs)
  case Nil
  then show ?case by simp
next
  case (Cons x xs)
  then have "unat (sum_list xs) = sum_list (map unat xs)" by simp
  moreover have "unat x + sum_list (map unat xs) < 2 ^ LENGTH(64)" using Cons.prems by simp
  ultimately show ?case
    using unat_add_lem [of x "sum_list xs"] by simp
qed

lemma stripeRows_take:
  "k < length cc \<Longrightarrow>
   stripeRows clusters (take k cc) + unat (NumVectors (clusters ! unat (cc ! k))) \<le> stripeRows clusters cc"
proof (induction cc arbitrary: k)
  case Nil
  then show ?case by simp
next
  case (Cons cid cc)
  then show ?case
    by (cases k) (auto simp: stripeRows_def)
qed

lemma rowBase_unat:
  assumes "stripeRows clusters cc < 2 ^ 64" "k \<le> length cc"
  shows "unat (rowBase clusters cc k) = stripeRows clusters (take k cc)"
proof -
  have "stripeRows clusters (take k cc @ drop k cc) =
        stripeRows clusters (take k cc) + stripeRows clusters (drop k cc)"
    by (simp only: stripeRows_def map_append sum_list_append)
  then have "stripeRows clusters (take k cc) \<le> stripeRows clusters cc" by simp
  then have "stripeRows clusters (take k cc) < 2 ^ 64" using assms(1) by linarith
  then show ?thesis
    using unat_sum_list [of "map (\<lambda>cid. NumVectors (clusters ! unat cid)) (take k cc)"]
    by (simp add: rowBase_def stripeRows_def comp_def)
qed

lemma cell_unat:
  assumes "unat m = ncols * unat slots" "(unat l + 1) * unat m < 2 ^ 64"
    and "unat row \<le> unat l" "c < ncols" "j < slots"
  shows "unat (DBIndex row (slots * of_nat c + j) m) = unat row * unat m + c * unat slots + unat j"
    and "c * unat slots + unat j < unat m"
proof -
  have jD: "unat j < unat slots" using assms(5) by (simp add: word_less_nat_alt)
  have "c * unat slots + unat slots \<le> ncols * unat slots"
    using assms(4) by (metis Suc_leI mult_Suc mult_le_mono1 add.commute)
  then show colM: "c * unat slots + unat j < unat m" using jD assms(1) by linarith
  have Mb: "unat m < 2 ^ 64" using assms(2) by (simp add: algebra_simps) 
  have cD: "c * unat slots < 2 ^ 64" using colM Mb by linarith
  have "c \<le> c * unat slots" using jD by (cases "unat slots") auto
  then have "c < 2 ^ 64" using cD by (rule order_le_less_trans)
  then have "c < 2 ^ LENGTH(64)" by simp
  then have uc: "unat (of_nat c :: u64) = c" by (simp add: unat_of_nat take_bit_nat_eq_self)
  have "unat slots * unat (of_nat c :: u64) < 2 ^ LENGTH(64)"
    using cD uc by (simp add: mult.commute)
  then have u1: "unat (slots * of_nat c) = unat slots * c"
    using unat_mult_lem [of slots "of_nat c"] uc by simp
  have "unat (slots * of_nat c) + unat j < 2 ^ LENGTH(64)"
    using u1 colM Mb by (simp add: mult.commute)
  then have u2: "unat (slots * of_nat c + j) = c * unat slots + unat j"
    using unat_add_lem [of "slots * of_nat c" j] u1 by (simp add: mult.commute)
  have "unat row * unat m + unat m \<le> (unat l + 1) * unat m"
    using assms(3) by (metis Suc_eq_plus1 mult_Suc mult_le_mono1 add.commute Suc_le_mono)
  then have tot: "unat row * unat m + (c * unat slots + unat j) < 2 ^ 64"
    using colM assms(2) by linarith
  then have "unat row * unat m < 2 ^ LENGTH(64)" by simp
  then have u3: "unat (row * m) = unat row * unat m"
    using unat_mult_lem [of row m] by simp
  have "unat (row * m) + unat (slots * of_nat c + j) < 2 ^ LENGTH(64)"
    using u3 u2 tot by simp
  then have "unat (row * m + (slots * of_nat c + j)) = unat row * unat m + (c * unat slots + unat j)"
    using unat_add_lem [of "row * m" "slots * of_nat c + j"] u3 u2 by simp
  then show "unat (DBIndex row (slots * of_nat c + j) m) = unat row * unat m + c * unat slots + unat j"
    by (simp add: DBIndex_def)
qed

lemma cell_nat_inj:
  fixes r r' c c' j j' D Mn :: nat
  assumes "c * D + j < Mn" "c' * D + j' < Mn" "j < D" "j' < D"
    and "r * Mn + c * D + j = r' * Mn + c' * D + j'"
  shows "r = r' \<and> c = c' \<and> j = j'"
proof -
  have e: "r * Mn + (c * D + j) = r' * Mn + (c' * D + j')" using assms(5) by simp
  have "(r * Mn + (c * D + j)) div Mn = r" "(r' * Mn + (c' * D + j')) div Mn = r'"
    using assms(1,2) by simp_all
  then have r: "r = r'" using e by simp
  then have e2: "c * D + j = c' * D + j'" using e by simp
  have "(c * D + j) div D = c" "(c' * D + j') div D = c'"
    using assms(3,4) by simp_all
  then have c: "c = c'" using e2 by simp
  then show ?thesis using r e2 by simp
qed

lemma cell_distinct:
  assumes "unat m = ncols * unat slots" "(unat l + 1) * unat m < 2 ^ 64"
    and "unat row \<le> unat l" "c < ncols" "j < slots"
    and "unat row' \<le> unat l" "c' < ncols" "j' < slots"
    and "unat row \<noteq> unat row' \<or> c \<noteq> c'"
  shows "unat (DBIndex row (slots * of_nat c + j) m) \<noteq> unat (DBIndex row' (slots * of_nat c' + j') m)"
proof
  assume eq: "unat (DBIndex row (slots * of_nat c + j) m) = unat (DBIndex row' (slots * of_nat c' + j') m)"
  note a = cell_unat [OF assms(1,2,3,4,5)]
  note b = cell_unat [OF assms(1,2,6,7,8)]
  have "unat j < unat slots" "unat j' < unat slots"
    using assms(5,8) by (simp_all add: word_less_nat_alt)
  note inj = cell_nat_inj [OF a(2) b(2) this, of "unat row" "unat row'"]
  have "unat row * unat m + c * unat slots + unat j = unat row' * unat m + c' * unat slots + unat j'"
    using eq a(1) b(1) by (simp only:)
  then have "unat row = unat row' \<and> c = c'" using inj by blast
  then show False using assms(9) by simp
qed


lemma u64_add_unat:
  "unat (a :: u64) + unat (b :: u64) \<le> unat (l :: u64) \<Longrightarrow> unat (a + b) = unat a + unat b"
proof -
  assume "unat a + unat b \<le> unat l"
  moreover have "unat l < 2 ^ LENGTH(64)" by (rule unsigned_less)
  ultimately have "unat a + unat b < 2 ^ LENGTH(64)" by linarith
  then show ?thesis using unat_add_lem [of a b] by simp
qed

subsection \<open>The values in the rows of one cluster\<close>

lemma rowsLoop_written:
  "rowsLoop vec colBase m slots l sz x start row vals = Inr (row', vals') \<Longrightarrow>
   unat m = ncols * unat slots \<Longrightarrow> (unat l + 1) * unat m < 2 ^ 64 \<Longrightarrow> c < ncols \<Longrightarrow>
   colBase = slots * of_nat c \<Longrightarrow> x \<le> sz \<Longrightarrow> unat row + unat (sz - x) \<le> unat l \<Longrightarrow>
   (\<forall>i j. i < sz - x \<and> j < slots \<longrightarrow>
      vals' ! unat (DBIndex (row + i) (colBase + j) m) = scast (vec ! unat (start + i * slots + j)))"
proof (induction vec colBase m slots l sz x start row vals rule: rowsLoop.induct)
  case (1 vec colBase m slots l sz x start row vals)
  note A1 = "1.prems"(2) and A2 = "1.prems"(3) and c = "1.prems"(4) and cb = "1.prems"(5)
    and xs = "1.prems"(6) and bd = "1.prems"(7)
  show ?case
  proof (cases "x < sz")
    case False
    then have "sz - x = 0" using xs by auto
    then show ?thesis by simp
  next
    case True
    from True "1.prems"(1) obtain vals1 where
      ln: "lanesLoop vec start row colBase m slots 0 vals = Inr vals1" and
      nov: "\<not> row + 1 > l" and
      rec: "rowsLoop vec colBase m slots l sz (x + 1) (start + slots) (row + 1) vals1 = Inr (row', vals')"
      by (subst (asm) rowsLoop.simps) (auto split: sum.splits if_splits)
    have rest: "unat (sz - (x + 1)) + 1 = unat (sz - x)" by (rule u64_rest_unat [OF True])
    have r1: "unat (row + 1) = unat row + 1"
      using u64_add_unat [of row 1 l] bd rest by simp
    have x1: "x + 1 \<le> sz" using True by (rule inc_le)
    have bd1: "unat (row + 1) + unat (sz - (x + 1)) \<le> unat l" using r1 rest bd by linarith
    note ih = "1.IH" [OF True ln nov rec A1 A2 c cb x1 bd1]
    from lanesLoop_result [OF ln] have
      wr: "\<forall>j'. j' < slots \<longrightarrow>
             vals1 ! unat (DBIndex row (colBase + j') m) = scast (vec ! unat (start + j'))"
      by simp
    from rowsLoop_frame [OF rec] have
      fr: "\<forall>k. (\<forall>i j. i < sz - (x + 1) \<and> j < slots \<longrightarrow>
                   k \<noteq> unat (DBIndex (row + 1 + i) (colBase + j) m)) \<longrightarrow> vals' ! k = vals1 ! k"
      by simp
    show ?thesis
    proof (intro allI impI)
      fix i j assume a: "i < sz - x \<and> j < slots"
      show "vals' ! unat (DBIndex (row + i) (colBase + j) m) = scast (vec ! unat (start + i * slots + j))"
      proof (cases "i = 0")
        case True
        have "\<forall>i' j'. i' < sz - (x + 1) \<and> j' < slots \<longrightarrow>
                unat (DBIndex row (colBase + j) m) \<noteq> unat (DBIndex (row + 1 + i') (colBase + j') m)"
        proof (intro allI impI)
          fix i' j' assume b: "i' < sz - (x + 1) \<and> j' < slots"
          then have "unat i' < unat (sz - (x + 1))" by (simp add: word_less_nat_alt)
          then have le: "unat (row + 1) + unat i' \<le> unat l" using bd1 by linarith
          then have u: "unat (row + 1 + i') = unat row + 1 + unat i'"
            using u64_add_unat [of "row + 1" i' l] r1 by simp
          have "unat row \<le> unat l" "unat (row + 1 + i') \<le> unat l" using le u r1 by linarith+
          moreover have "unat row \<noteq> unat (row + 1 + i') \<or> c \<noteq> c" using u by simp
          ultimately show "unat (DBIndex row (colBase + j) m) \<noteq>
                           unat (DBIndex (row + 1 + i') (colBase + j') m)"
            unfolding cb using cell_distinct [OF A1 A2 _ c _ _ c] a b by blast
        qed
        then have "vals' ! unat (DBIndex row (colBase + j) m) = vals1 ! unat (DBIndex row (colBase + j) m)"
          using fr by blast
        then show ?thesis using wr a True by simp
      next
        case False
        then have "i - 1 < sz - (x + 1)" using u64_rest_pred [OF \<open>x < sz\<close>] a by blast
        then have "vals' ! unat (DBIndex (row + 1 + (i - 1)) (colBase + j) m) =
                   scast (vec ! unat (start + slots + (i - 1) * slots + j))"
          using ih a by blast
        moreover have "row + 1 + (i - 1) = row + i" by simp
        moreover have "start + slots + (i - 1) * slots + j = start + i * slots + j"
          by (simp add: algebra_simps)
        ultimately show ?thesis by simp
      qed
    qed
  qed
qed


subsection \<open>The values in one stripe\<close>

lemma stripe_row_unat:
  assumes "unat row + stripeRows clusters cc \<le> unat (l :: u64)" "k < length cc"
    and "i < NumVectors (clusters ! unat (cc ! k))"
  shows "unat (row + rowBase clusters cc k + i) = unat row + stripeRows clusters (take k cc) + unat i"
    and "unat row + stripeRows clusters (take k cc) + unat i < unat row + stripeRows clusters cc"
proof -
  have l64: "unat l < 2 ^ 64" using unsigned_less [of l, where 'a = nat] by simp
  then have "stripeRows clusters cc < 2 ^ 64" using assms(1) by linarith
  then have rb: "unat (rowBase clusters cc k) = stripeRows clusters (take k cc)"
    using rowBase_unat assms(2) by simp
  have iu: "unat i < unat (NumVectors (clusters ! unat (cc ! k)))"
    using assms(3) by (simp add: word_less_nat_alt)
  with stripeRows_take [OF assms(2), of clusters]
  show lt: "unat row + stripeRows clusters (take k cc) + unat i < unat row + stripeRows clusters cc"
    by linarith
  have "unat row + unat (rowBase clusters cc k) \<le> unat l" using rb lt assms(1) by linarith
  then have a: "unat (row + rowBase clusters cc k) = unat row + stripeRows clusters (take k cc)"
    using u64_add_unat [of row "rowBase clusters cc k" l] rb by simp
  have "unat (row + rowBase clusters cc k) + unat i \<le> unat l" using a lt assms(1) by linarith
  then show "unat (row + rowBase clusters cc k + i) = unat row + stripeRows clusters (take k cc) + unat i"
    using u64_add_unat [of "row + rowBase clusters cc k" i l] a by simp
qed

lemma stripeLoop_written:
  "stripeLoop clusters colBase m slots l cc row im vals = Inr (im', vals') \<Longrightarrow>
   unat m = ncols * unat slots \<Longrightarrow> (unat l + 1) * unat m < 2 ^ 64 \<Longrightarrow> c < ncols \<Longrightarrow>
   colBase = slots * of_nat c \<Longrightarrow> unat row + stripeRows clusters cc \<le> unat l \<Longrightarrow>
   (\<forall>k < length cc. \<forall>i j. i < NumVectors (clusters ! unat (cc ! k)) \<and> j < slots \<longrightarrow>
      vals' ! unat (DBIndex (row + rowBase clusters cc k + i) (colBase + j) m) =
      scast (Vectors (clusters ! unat (cc ! k)) ! unat (i * slots + j)))"
proof (induction cc arbitrary: row im vals)
  case Nil
  then show ?case by simp
next
  case (Cons cid cc)
  note A1 = Cons.prems(2) and A2 = Cons.prems(3) and c = Cons.prems(4) and cb = Cons.prems(5)
    and bd = Cons.prems(6)
  let ?c = "clusters ! unat cid"
  let ?sz = "NumVectors ?c"
  from Cons.prems(1) obtain row1 vals1 where
    rl: "rowsLoop (Vectors ?c) colBase m slots l ?sz 0 0 row vals = Inr (row1, vals1)" and
    rec: "stripeLoop clusters colBase m slots l cc row1 (im(cid \<mapsto> DBIndex row colBase m)) vals1
          = Inr (im', vals')"
    by (auto simp: Let_def split: option.splits if_splits sum.splits)
  have sr: "stripeRows clusters (cid # cc) = unat ?sz + stripeRows clusters cc"
    by (simp add: stripeRows_def)
  have row1: "row1 = row + ?sz" using rowsLoop_frame [OF rl] by simp
  have ur1: "unat row1 = unat row + unat ?sz"
    unfolding row1 using u64_add_unat [of row ?sz l] bd sr by simp
  have bd0: "unat row + unat (?sz - 0) \<le> unat l" using bd sr by simp
  have wr: "\<forall>i j. i < ?sz \<and> j < slots \<longrightarrow>
      vals1 ! unat (DBIndex (row + i) (colBase + j) m) = scast (Vectors ?c ! unat (i * slots + j))"
    using rowsLoop_written [OF rl A1 A2 c cb _ bd0] by simp
  have bd1: "unat row1 + stripeRows clusters cc \<le> unat l" using ur1 bd sr by simp
  note ih = Cons.IH [OF rec A1 A2 c cb bd1]
  from stripeLoop_frame [OF rec] have
    fr: "\<forall>idx. (\<forall>k i j. k < length cc \<and> i < NumVectors (clusters ! unat (cc ! k)) \<and> j < slots \<longrightarrow>
                idx \<noteq> unat (DBIndex (row1 + rowBase clusters cc k + i) (colBase + j) m)) \<longrightarrow>
            vals' ! idx = vals1 ! idx"
    by blast
  show ?case
  proof (intro allI impI)
    fix k i j
    assume k: "k < length (cid # cc)"
      and a: "i < NumVectors (clusters ! unat ((cid # cc) ! k)) \<and> j < slots"
    show "vals' ! unat (DBIndex (row + rowBase clusters (cid # cc) k + i) (colBase + j) m) =
          scast (Vectors (clusters ! unat ((cid # cc) ! k)) ! unat (i * slots + j))"
    proof (cases k)
      case 0
      then have i: "i < ?sz" and j: "j < slots" using a by simp_all
      have ui: "unat (row + i) = unat row + unat i" "unat row + unat i < unat row1"
      proof -
        have "unat i < unat ?sz" using i by (simp add: word_less_nat_alt)
        then show "unat row + unat i < unat row1" using ur1 by simp
        then have "unat row + unat i \<le> unat l" using bd1 by linarith
        then show "unat (row + i) = unat row + unat i" by (rule u64_add_unat)
      qed
      have "\<forall>k' i' j'. k' < length cc \<and> i' < NumVectors (clusters ! unat (cc ! k')) \<and> j' < slots \<longrightarrow>
              unat (DBIndex (row + i) (colBase + j) m) \<noteq>
              unat (DBIndex (row1 + rowBase clusters cc k' + i') (colBase + j') m)"
      proof (intro allI impI)
        fix k' i' j'
        assume b: "k' < length cc \<and> i' < NumVectors (clusters ! unat (cc ! k')) \<and> j' < slots"
        note u = stripe_row_unat [OF bd1, of k' i']
        have "unat (row + i) \<le> unat l" using ui bd1 by linarith
        moreover have "unat (row1 + rowBase clusters cc k' + i') \<le> unat l"
          using u b bd1 by linarith
        moreover have "unat (row + i) \<noteq> unat (row1 + rowBase clusters cc k' + i') \<or> c \<noteq> c"
          using u b ui by linarith
        ultimately show "unat (DBIndex (row + i) (colBase + j) m) \<noteq>
              unat (DBIndex (row1 + rowBase clusters cc k' + i') (colBase + j') m)"
          unfolding cb using cell_distinct [OF A1 A2 _ c _ _ c] j b by blast
      qed
      then have "vals' ! unat (DBIndex (row + i) (colBase + j) m) =
                 vals1 ! unat (DBIndex (row + i) (colBase + j) m)"
        using fr by blast
      then show ?thesis using wr i j 0 by (simp add: rowBase_0)
    next
      case (Suc n)
      then have n: "n < length cc" using k by simp
      have "vals' ! unat (DBIndex (row1 + rowBase clusters cc n + i) (colBase + j) m) =
            scast (Vectors (clusters ! unat (cc ! n)) ! unat (i * slots + j))"
        using ih n a Suc by simp
      then show ?thesis using Suc by (simp add: rowBase_Cons_Suc row1 add.assoc)
    qed
  qed
qed


subsection \<open>The values in all stripes\<close>

lemma stripe_row0_unat:
  assumes "stripeRows clusters cc \<le> unat (l :: u64)" "k < length cc"
    and "i < NumVectors (clusters ! unat (cc ! k))"
  shows "unat (rowBase clusters cc k + i) = stripeRows clusters (take k cc) + unat i"
    and "unat (rowBase clusters cc k + i) < stripeRows clusters cc"
proof -
  have "unat (0 :: u64) + stripeRows clusters cc \<le> unat l" using assms(1) by simp
  note u = stripe_row_unat [OF this assms(2,3)]
  show "unat (rowBase clusters cc k + i) = stripeRows clusters (take k cc) + unat i"
    using u(1) by simp
  then show "unat (rowBase clusters cc k + i) < stripeRows clusters cc"
    using u(2) by simp
qed

lemma colsLoop_written:
  "colsLoop clusters m slots l c0 cols im vals = Inr (im', vals') \<Longrightarrow>
   unat m = (c0 + length cols) * unat slots \<Longrightarrow> (unat l + 1) * unat m < 2 ^ 64 \<Longrightarrow>
   (\<forall>cc \<in> set cols. stripeRows clusters cc \<le> unat l) \<Longrightarrow>
   (\<forall>c < length cols. \<forall>k < length (cols ! c). \<forall>i j.
      i < NumVectors (clusters ! unat (cols ! c ! k)) \<and> j < slots \<longrightarrow>
      vals' ! unat (DBIndex (rowBase clusters (cols ! c) k + i) (slots * of_nat (c0 + c) + j) m) =
      scast (Vectors (clusters ! unat (cols ! c ! k)) ! unat (i * slots + j)))"
proof (induction cols arbitrary: c0 im vals)
  case Nil
  then show ?case by simp
next
  case (Cons cc cols)
  note A1 = Cons.prems(2) and A2 = Cons.prems(3) and bd = Cons.prems(4)
  from Cons.prems(1) obtain im1 vals1 where
    st: "stripeLoop clusters (slots * of_nat c0) m slots l cc 0 im vals = Inr (im1, vals1)" and
    rec: "colsLoop clusters m slots l (Suc c0) cols im1 vals1 = Inr (im', vals')"
    by (auto split: sum.splits)
  have c0: "c0 < c0 + length (cc # cols)" by simp
  have bcc: "stripeRows clusters cc \<le> unat l" using bd by simp
  then have b0: "unat (0 :: u64) + stripeRows clusters cc \<le> unat l" by simp
  have wr: "\<forall>k < length cc. \<forall>i j. i < NumVectors (clusters ! unat (cc ! k)) \<and> j < slots \<longrightarrow>
      vals1 ! unat (DBIndex (rowBase clusters cc k + i) (slots * of_nat c0 + j) m) =
      scast (Vectors (clusters ! unat (cc ! k)) ! unat (i * slots + j))"
    using stripeLoop_written [OF st A1 A2 c0 refl b0] by simp
  have A1': "unat m = (Suc c0 + length cols) * unat slots" using A1 by simp
  have bd': "\<forall>cc \<in> set cols. stripeRows clusters cc \<le> unat l" using bd by simp
  note ih = Cons.IH [OF rec A1' A2 bd']
  from colsLoop_frame [OF rec] have
    fr: "\<forall>idx. (\<forall>c k i j. c < length cols \<and> k < length (cols ! c) \<and>
                i < NumVectors (clusters ! unat (cols ! c ! k)) \<and> j < slots \<longrightarrow>
                idx \<noteq> unat (DBIndex (rowBase clusters (cols ! c) k + i)
                                (slots * of_nat (Suc c0 + c) + j) m)) \<longrightarrow>
            vals' ! idx = vals1 ! idx"
    by blast
  show ?case
  proof (intro allI impI)
    fix c k i j
    assume c: "c < length (cc # cols)" and k: "k < length ((cc # cols) ! c)"
      and a: "i < NumVectors (clusters ! unat ((cc # cols) ! c ! k)) \<and> j < slots"
    show "vals' ! unat (DBIndex (rowBase clusters ((cc # cols) ! c) k + i)
                          (slots * of_nat (c0 + c) + j) m) =
          scast (Vectors (clusters ! unat ((cc # cols) ! c ! k)) ! unat (i * slots + j))"
    proof (cases c)
      case 0
      then have kk: "k < length cc" and i: "i < NumVectors (clusters ! unat (cc ! k))" and j: "j < slots"
        using k a by simp_all
      have r0: "unat (rowBase clusters cc k + i) \<le> unat l"
        using stripe_row0_unat(2) [OF bcc kk i] bcc by linarith
      have "\<forall>c' k' i' j'. c' < length cols \<and> k' < length (cols ! c') \<and>
                i' < NumVectors (clusters ! unat (cols ! c' ! k')) \<and> j' < slots \<longrightarrow>
              unat (DBIndex (rowBase clusters cc k + i) (slots * of_nat c0 + j) m) \<noteq>
              unat (DBIndex (rowBase clusters (cols ! c') k' + i') (slots * of_nat (Suc c0 + c') + j') m)"
      proof (intro allI impI)
        fix c' k' i' j'
        assume b: "c' < length cols \<and> k' < length (cols ! c') \<and>
                i' < NumVectors (clusters ! unat (cols ! c' ! k')) \<and> j' < slots"
        then have "stripeRows clusters (cols ! c') \<le> unat l" using bd' by simp
        then have r1: "unat (rowBase clusters (cols ! c') k' + i') \<le> unat l"
          using stripe_row0_unat(2) [of clusters "cols ! c'" l k' i'] b by linarith
        have c1: "Suc c0 + c' < c0 + length (cc # cols)" using b by simp
        have "unat (rowBase clusters cc k + i) \<noteq> unat (rowBase clusters (cols ! c') k' + i') \<or>
              c0 \<noteq> Suc c0 + c'" by simp
        from cell_distinct [OF A1 A2 r0 c0 j r1 c1 _ this] b
        show "unat (DBIndex (rowBase clusters cc k + i) (slots * of_nat c0 + j) m) \<noteq>
              unat (DBIndex (rowBase clusters (cols ! c') k' + i') (slots * of_nat (Suc c0 + c') + j') m)"
          by blast
      qed
      then have "vals' ! unat (DBIndex (rowBase clusters cc k + i) (slots * of_nat c0 + j) m) =
                 vals1 ! unat (DBIndex (rowBase clusters cc k + i) (slots * of_nat c0 + j) m)"
        using fr by blast
      then show ?thesis using wr kk i j 0 by simp
    next
      case (Suc n)
      then have "n < length cols" "k < length (cols ! n)"
        "i < NumVectors (clusters ! unat (cols ! n ! k)) \<and> j < slots"
        using c k a by simp_all
      then show ?thesis using ih Suc by simp
    qed
  qed
qed

subsection \<open>No row beyond the last\<close>

lemma rowsLoop_no_overflow:
  "x \<le> sz \<Longrightarrow> unat row + unat (sz - x) \<le> unat l \<Longrightarrow>
   rowsLoop vec colBase m slots l sz x start row vals \<noteq> Inl RowOverflow"
proof (induction vec colBase m slots l sz x start row vals rule: rowsLoop.induct)
  case (1 vec colBase m slots l sz x start row vals)
  show ?case
  proof (cases "x < sz")
    case False
    then show ?thesis by (subst rowsLoop.simps) simp
  next
    case True
    have rest: "unat (sz - (x + 1)) + 1 = unat (sz - x)" by (rule u64_rest_unat [OF True])
    have r1: "unat (row + 1) = unat row + 1"
      using u64_add_unat [of row 1 l] "1.prems"(2) rest by simp
    have nov: "\<not> row + 1 > l"
      using r1 "1.prems"(2) rest by (simp add: word_less_nat_alt)
    have x1: "x + 1 \<le> sz" using True by (rule inc_le)
    have bd1: "unat (row + 1) + unat (sz - (x + 1)) \<le> unat l" using r1 rest "1.prems"(2) by linarith
    show ?thesis
    proof (cases "lanesLoop vec start row colBase m slots 0 vals")
      case (Inl e)
      then have "e = IndexOutOfRange" by (rule lanesLoop_panic)
      then show ?thesis using True Inl by (subst rowsLoop.simps) simp
    next
      case (Inr vals1)
      from "1.IH" [OF True Inr nov x1 bd1] show ?thesis
        using True Inr nov by (subst rowsLoop.simps) simp
    qed
  qed
qed

lemma stripeLoop_no_overflow:
  "unat row + stripeRows clusters cc \<le> unat l \<Longrightarrow>
   stripeLoop clusters colBase m slots l cc row im vals \<noteq> Inl RowOverflow"
proof (induction cc arbitrary: row im vals)
  case Nil
  then show ?case by simp
next
  case (Cons cid cc)
  let ?c = "clusters ! unat cid"
  let ?sz = "NumVectors ?c"
  have sr: "stripeRows clusters (cid # cc) = unat ?sz + stripeRows clusters cc"
    by (simp add: stripeRows_def)
  have bd0: "unat row + unat (?sz - 0) \<le> unat l" using Cons.prems sr by simp
  show ?case
  proof (cases "im cid")
    case (Some v)
    then show ?thesis by simp
  next
    case None
    show ?thesis
    proof (cases "unat cid < length clusters")
      case False
      then show ?thesis using None by simp
    next
      case True
      show ?thesis
      proof (cases "rowsLoop (Vectors ?c) colBase m slots l ?sz 0 0 row vals")
        case (Inl e)
        then have "e \<noteq> RowOverflow" using rowsLoop_no_overflow [OF _ bd0] by auto
        then show ?thesis using None True Inl by (simp add: Let_def)
      next
        case (Inr r)
        obtain row1 vals1 where r: "r = (row1, vals1)" by (cases r)
        have row1: "row1 = row + ?sz" using rowsLoop_frame Inr r by fastforce
        have ur1: "unat row1 = unat row + unat ?sz"
          unfolding row1 using u64_add_unat [of row ?sz l] Cons.prems sr by simp
        have bd1: "unat row1 + stripeRows clusters cc \<le> unat l" using ur1 Cons.prems sr by simp
        have eq: "stripeLoop clusters colBase m slots l (cid # cc) row im vals =
            stripeLoop clusters colBase m slots l cc row1 (im(cid \<mapsto> DBIndex row colBase m)) vals1"
          using None True Inr r by (simp add: Let_def)
        show ?thesis unfolding eq by (rule Cons.IH [OF bd1])
      qed
    qed
  qed
qed

lemma colsLoop_no_overflow:
  "\<forall>cc \<in> set cols. stripeRows clusters cc \<le> unat l \<Longrightarrow>
   colsLoop clusters m slots l c0 cols im vals \<noteq> Inl RowOverflow"
proof (induction cols arbitrary: c0 im vals)
  case Nil
  then show ?case by simp
next
  case (Cons cc cols)
  have "unat (0 :: u64) + stripeRows clusters cc \<le> unat l" using Cons.prems by simp
  note st = stripeLoop_no_overflow [OF this, of "slots * of_nat c0" m slots im vals]
  show ?case
  proof (cases "stripeLoop clusters (slots * of_nat c0) m slots l cc 0 im vals")
    case (Inl e)
    then show ?thesis using st by auto
  next
    case (Inr r)
    obtain im1 vals1 where r: "r = (im1, vals1)" by (cases r)
    have "colsLoop clusters m slots l (Suc c0) cols im1 vals1 \<noteq> Inl RowOverflow"
      using Cons.IH Cons.prems by simp
    then show ?thesis using Inr r by simp
  qed
qed

section \<open>The layout when nothing wraps around\<close>

lemma fold_max_ge_init: "(a :: u64) \<le> fold max xs a"
proof (induction xs arbitrary: a)
  case Nil
  then show ?case by simp
next
  case (Cons x xs)
  have "a \<le> max x a" by simp
  also have "max x a \<le> fold max xs (max x a)" by (rule Cons.IH)
  finally show ?case by simp
qed

lemma fold_max_ge_elem: "x \<in> set xs \<Longrightarrow> (x :: u64) \<le> fold max xs a"
proof (induction xs arbitrary: a)
  case Nil
  then show ?case by simp
next
  case (Cons y xs)
  show ?case
  proof (cases "x = y")
    case True
    have "x \<le> max y a" using True by simp
    also have "max y a \<le> fold max xs (max y a)" by (rule fold_max_ge_init)
    finally show ?thesis by simp
  next
    case False
    then have "x \<in> set xs" using Cons.prems by simp
    then show ?thesis using Cons.IH by simp
  qed
qed

lemma fold_max_mem: "fold max xs (a :: u64) \<in> insert a (set xs)"
proof (induction xs arbitrary: a)
  case Nil
  then show ?case by simp
next
  case (Cons x xs)
  have "fold max xs (max x a) \<in> insert (max x a) (set xs)" by (rule Cons.IH)
  moreover have "max x a = x \<or> max x a = a" by (simp add: max_def)
  ultimately show ?case by auto
qed

lemma utils_Max_ge: "x \<in> set xs \<Longrightarrow> x \<le> utils_Max xs"
  by (simp add: utils_Max_def fold_max_ge_elem)

lemma utils_Max_mem: "utils_Max xs \<in> insert 0 (set xs)"
  unfolding utils_Max_def by (rule fold_max_mem)


lemma place_nonempty_stripes:
  "\<forall>s \<in> set ss. s \<noteq> [] \<Longrightarrow> \<forall>s \<in> set (place clusters cap i ss). s \<noteq> []"
  by (induction ss) auto

lemma foldl_place_nonempty_stripes:
  "\<forall>s \<in> set ss. s \<noteq> [] \<Longrightarrow> \<forall>s \<in> set (foldl (\<lambda>ss k. place clusters cap k ss) ss xs). s \<noteq> []"
proof (induction xs arbitrary: ss)
  case Nil
  then show ?case by simp
next
  case (Cons x xs)
  from Cons.IH [OF place_nonempty_stripes [OF Cons.prems]] show ?case by simp
qed

lemma ffd_nonempty_stripes: "\<forall>s \<in> set (ffd clusters ci cap). s \<noteq> []"
  unfolding ffd_def by (rule foldl_place_nonempty_stripes) simp

lemma length_le_concat: "\<forall>s \<in> set ss. s \<noteq> [] \<Longrightarrow> length ss \<le> length (concat ss)"
proof (induction ss)
  case Nil
  then show ?case by simp
next
  case (Cons s ss)
  then have "1 \<le> length s" by (cases s) auto
  then show ?case using Cons by simp
qed

lemma ffd_length:
  assumes "clusters \<noteq> []" "sort_Slice_post clusters ci"
  shows "length (ffd clusters ci cap) \<le> length clusters"
proof -
  note d = sort_Slice_postD [OF assms(2)]
  have ne: "ci \<noteq> []" using d(1) assms(1) by auto
  have "length (concat (ffd clusters ci cap)) = card (set (concat (ffd clusters ci cap)))"
    using ffd_distinct [OF ne d(2)] by (simp add: distinct_card del: set_concat)
  also have "\<dots> = card (set ci)" by (simp only: ffd_set [OF ne])
  also have "\<dots> = length clusters" using d(1,2) by (simp add: distinct_card)
  finally show ?thesis
    using length_le_concat [OF ffd_nonempty_stripes, of clusters ci cap] by simp
qed

lemma stripe_sum_le_concat:
  "s \<in> set ss \<Longrightarrow> sum_list (map f s) \<le> (sum_list (map f (concat ss)) :: nat)"
  by (induction ss) auto

lemma ffd_stripe_rows_le_total:
  assumes "clusters \<noteq> []" "sort_Slice_post clusters ci" "s \<in> set (ffd clusters ci cap)"
  shows "sum_list (map (\<lambda>i. unat (NumVectors (clusters ! i))) s) \<le>
         sum_list (map (\<lambda>c. unat (NumVectors c)) clusters)"
proof -
  note d = sort_Slice_postD [OF assms(2)]
  have ne: "ci \<noteq> []" using d(1) assms(1) by auto
  let ?f = "\<lambda>i. unat (NumVectors (clusters ! i))"
  have "sum_list (map ?f s) \<le> sum_list (map ?f (concat (ffd clusters ci cap)))"
    by (rule stripe_sum_le_concat [OF assms(3)])
  also have "\<dots> = sum ?f (set (concat (ffd clusters ci cap)))"
    using ffd_distinct [OF ne d(2)] by (simp add: sum_list_distinct_conv_sum_set del: set_concat)
  also have "\<dots> = sum ?f (set ci)" by (simp only: ffd_set [OF ne])
  also have "\<dots> = sum_list (map ?f ci)"
    using d(2) by (simp add: sum_list_distinct_conv_sum_set)
  also have "\<dots> = sum_list (map (\<lambda>c. unat (NumVectors c)) clusters)"
    by (rule sort_Slice_post_sum [OF assms(2)])
  finally show ?thesis .
qed

lemma stripeRows_idsOf:
  assumes "\<forall>i < length clusters. unat (Index (clusters ! i)) = i" "\<forall>i \<in> set s. i < length clusters"
  shows "stripeRows clusters (map (\<lambda>i. Index (clusters ! i)) s) =
         sum_list (map (\<lambda>i. unat (NumVectors (clusters ! i))) s)"
  using assms(2) by (induction s) (simp_all add: stripeRows_def assms(1))

lemma rowCount_unat:
  assumes "sum_list (map (\<lambda>i. unat (NumVectors (clusters ! i))) s) < 2 ^ 64"
  shows "unat (rowCount clusters s) = sum_list (map (\<lambda>i. unat (NumVectors (clusters ! i))) s)"
  using unat_sum_list [of "map (\<lambda>i. NumVectors (clusters ! i)) s"] assms
  by (simp add: rowCount_def comp_def)

lemma layout_no_wrap:
  fixes d cap :: u64 and clusters :: "Cluster list" and ci :: "nat list"
  assumes "clusters \<noteq> []" "sort_Slice_post clusters ci"
    and "\<forall>i < length clusters. unat (Index (clusters ! i)) = i"
    and "fits_u64 clusters d" "d \<noteq> 0"
  defines "ss \<equiv> ffd clusters ci cap"
  shows "unat (of_nat (length (idsOf clusters ss)) * d) = length (idsOf clusters ss) * unat d"
    and "(unat (utils_Max (rowCounts clusters ss)) + 1) * unat (of_nat (length (idsOf clusters ss)) * d)
           < 2 ^ 64"
    and "\<forall>c < length ss. stripeRows clusters (idsOf clusters ss ! c) = unat (rowCounts clusters ss ! c)"
    and "\<forall>cc \<in> set (idsOf clusters ss). stripeRows clusters cc \<le> unat (utils_Max (rowCounts clusters ss))"
proof -
  let ?N = "sum_list (map (\<lambda>c. unat (NumVectors c)) clusters)"
  let ?n = "length clusters"
  let ?D = "unat d"
  let ?f = "\<lambda>i. unat (NumVectors (clusters ! i))"
  have fit: "(?N + 1) * (?n * ?D) < 2 ^ 64" using assms(4) by (simp add: fits_u64_def)
  have D1: "1 \<le> ?D" using assms(5) by (simp add: unat_gt_0 Suc_leI)
  have n1: "1 \<le> ?n" using assms(1) by (cases clusters) auto
  have nD: "?n * ?D < 2 ^ 64"
  proof -
    have "?n * ?D \<le> (?N + 1) * (?n * ?D)" by simp
    then show ?thesis using fit by linarith
  qed
  have N: "?N + 1 \<le> (?N + 1) * (?n * ?D)"
  proof -
    have "1 \<le> ?n * ?D" using D1 n1 by (metis mult_le_mono nat_mult_1)
    then show ?thesis by (metis mult_le_mono2 nat_mult_1_right)
  qed
  then have N64: "?N < 2 ^ 64" using fit by linarith
  have len: "length ss \<le> ?n" unfolding ss_def by (rule ffd_length [OF assms(1,2)])
  have "?n * 1 \<le> ?n * ?D" using D1 by (rule mult_le_mono2)
  then have "length ss < 2 ^ 64" using len nD by linarith
  then have "length ss < 2 ^ LENGTH(64)" by simp
  then have ul: "unat (of_nat (length ss) :: u64) = length ss"
    by (simp add: unat_of_nat take_bit_nat_eq_self)
  have lD: "length ss * ?D \<le> ?n * ?D" using len by (rule mult_le_mono1)
  then have "length ss * ?D < 2 ^ 64" using nD by linarith
  then have "unat (of_nat (length ss) :: u64) * unat d < 2 ^ LENGTH(64)" by (simp add: ul)
  then have m: "unat (of_nat (length ss) * d) = length ss * ?D"
    using unat_mult_lem [of "of_nat (length ss) :: u64" d] ul by simp
  then show A1: "unat (of_nat (length (idsOf clusters ss)) * d) = length (idsOf clusters ss) * unat d"
    by (simp add: idsOf_def)
  have pos: "\<forall>s \<in> set ss. \<forall>i \<in> set s. i < ?n"
    unfolding ss_def by (rule ffd_positions [OF assms(1,2)])
  have rows: "\<forall>s \<in> set ss. sum_list (map ?f s) \<le> ?N"
    unfolding ss_def using ffd_stripe_rows_le_total [OF assms(1,2)] by blast
  have eq: "stripeRows clusters (idsOf clusters ss ! c) = unat (rowCounts clusters ss ! c)
            \<and> unat (rowCounts clusters ss ! c) \<le> ?N" if "c < length ss" for c
  proof -
    have mem: "ss ! c \<in> set ss" using that by simp
    have a: "stripeRows clusters (idsOf clusters ss ! c) = sum_list (map ?f (ss ! c))"
      using stripeRows_idsOf [OF assms(3), of "ss ! c"] pos mem that by (simp add: idsOf_def)
    have "sum_list (map ?f (ss ! c)) < 2 ^ 64" using rows mem N64 by (meson le_less_trans)
    then have b: "unat (rowCount clusters (ss ! c)) = sum_list (map ?f (ss ! c))"
      by (rule rowCount_unat)
    show ?thesis using a b rows mem that by (simp add: rowCounts_def)
  qed
  then show A3: "\<forall>c < length ss. stripeRows clusters (idsOf clusters ss ! c) = unat (rowCounts clusters ss ! c)"
    by blast
  let ?l = "utils_Max (rowCounts clusters ss)"
  have lN: "unat ?l \<le> ?N"
  proof -
    have "?l = 0 \<or> ?l \<in> set (rowCounts clusters ss)" using utils_Max_mem by blast
    then show ?thesis
    proof
      assume "?l = 0" then show ?thesis by simp
    next
      assume "?l \<in> set (rowCounts clusters ss)"
      then obtain c where "c < length ss" "?l = rowCounts clusters ss ! c"
        by (metis in_set_conv_nth length_map rowCounts_def)
      then show ?thesis using eq by simp
    qed
  qed
  have "unat ?l + 1 \<le> ?N + 1" using lN by simp
  then have "(unat ?l + 1) * (length ss * ?D) \<le> (?N + 1) * (?n * ?D)"
    using lD by (rule mult_le_mono)
  then show "(unat ?l + 1) * unat (of_nat (length (idsOf clusters ss)) * d) < 2 ^ 64"
    using fit A1 by (simp add: idsOf_def)
  show "\<forall>cc \<in> set (idsOf clusters ss). stripeRows clusters cc \<le> unat ?l"
  proof
    fix cc assume "cc \<in> set (idsOf clusters ss)"
    then obtain c where c: "c < length ss" "cc = idsOf clusters ss ! c"
      by (metis in_set_conv_nth length_map idsOf_def)
    have "rowCounts clusters ss ! c \<in> set (rowCounts clusters ss)"
      using c(1) by (simp add: rowCounts_def)
    then have "rowCounts clusters ss ! c \<le> ?l" by (rule utils_Max_ge)
    then have "unat (rowCounts clusters ss ! c) \<le> unat ?l" by (simp add: word_le_nat_alt)
    then show "stripeRows clusters cc \<le> unat ?l" using eq c by simp
  qed
qed

section \<open>From the result of BuildVectorDatabase back to its loops\<close>

lemma buildVals_success:
  assumes "buildVals backend metadata clusters ci hintSz precBits = Inr (cols, l, m, p, vals, indexMap)"
  shows "\<exists>colSzs. PackClusters ci clusters (hintSz * 125) = Inr (cols, colSzs) \<and>
           l = utils_Max colSzs \<and> m = of_nat (length cols) * dim metadata \<and>
           colsLoop clusters m (dim metadata) l 0 cols Map.empty (replicate (unat (l * m)) 0)
             = Inr (indexMap, vals)"
  using assms
  by (auto simp: buildVals_def Let_def split: sum.splits option.splits if_splits)

lemma BuildVectorDatabase_success:
  assumes "BuildVectorDatabase backend metadata clusters ci hintSz precBits = Inr (db, indexMap)"
  shows "\<exists>cols l m p vals.
           buildVals backend metadata clusters ci hintSz precBits = Inr (cols, l, m, p, vals, indexMap) \<and>
           db = NewDatabaseFixedParams backend (l * m) 15 vals p \<and> Info_L backend db = l"
  using assms
  by (auto simp: BuildVectorDatabase_def Let_def split: sum.splits if_splits)

lemma buildVals_no_RowOverflow:
  assumes "PackClusters ci clusters (hintSz * 125) = Inr (cols, colSzs)"
    and "\<forall>cc \<in> set cols. stripeRows clusters cc \<le> unat (utils_Max colSzs)"
  shows "buildVals backend metadata clusters ci hintSz precBits \<noteq> Inl RowOverflow"
proof -
  have "colsLoop clusters m (dim metadata) (utils_Max colSzs) 0 cols Map.empty vals \<noteq> Inl RowOverflow"
    for m vals
    by (rule colsLoop_no_overflow [OF assms(2)])
  then show ?thesis
    by (auto simp: buildVals_def assms(1) Let_def split: option.splits sum.splits)
qed

lemma origin_decompose:
  assumes "unat m = ncols * unat d" "(unat l + 1) * unat m < 2 ^ 64"
    and "unat rb \<le> unat l" "c < ncols" "d \<noteq> 0"
  shows "(DBIndex rb (d * of_nat c) m mod m) div d = of_nat c"
    and "unat (DBIndex rb (d * of_nat c) m div m) = unat rb"
proof -
  have d0: "0 < d" using assms(5) by (simp add: word_greater_zero_iff)
  have D: "0 < unat d" using assms(5) by (simp add: unat_gt_0)
  note u = cell_unat [OF assms(1,2,3,4) d0]
  let ?v = "DBIndex rb (d * of_nat c) m"
  have v: "unat ?v = unat rb * unat m + c * unat d" and cM: "c * unat d < unat m"
    using u by simp_all
  have "unat (?v mod m) = (unat rb * unat m + c * unat d) mod unat m"
    by (simp add: unat_mod v)
  also have "\<dots> = c * unat d" using cM by simp
  finally have "unat ((?v mod m) div d) = c" using D by (simp add: unat_div)
  then have "of_nat (unat ((?v mod m) div d)) = (of_nat c :: u64)" by simp
  then show "(?v mod m) div d = of_nat c" by simp
  have "unat (?v div m) = (unat rb * unat m + c * unat d) div unat m"
    by (simp add: unat_div v)
  also have "\<dots> = unat rb" using cM by simp
  finally show "unat (?v div m) = unat rb" .
qed

section \<open>Claims about PackClusters\<close>

lemma subseq_sorted_wrt: "subseq xs ys \<Longrightarrow> sorted_wrt R ys \<Longrightarrow> sorted_wrt R xs"
proof (induction rule: list_emb.induct)
  case (list_emb_Nil ys)
  then show ?case by simp
next
  case (list_emb_Cons xs ys y)
  then show ?case by simp
next
  case (list_emb_Cons2 x y xs ys)
  then have "\<forall>z \<in> set xs. z \<in> set ys"
    using list_emb_set [of "(=)" xs ys] by auto
  with list_emb_Cons2 show ?case by auto
qed

text \<open>
  C10. On an empty cluster list \<open>PackClusters\<close> panics with "No clusters given". On a
  non-empty list it returns a layout with at least one stripe, and the first entry of the
  first stripe is the id of a cluster whose size no other cluster exceeds.
\<close>

theorem PackClusters_empty_or_largest_first:
  "PackClusters ci [] cap = Inl NoClustersGiven \<and>
   (clusters \<noteq> [] \<and> sort_Slice_post clusters ci \<longrightarrow>
      (\<exists>cols colSzs. PackClusters ci clusters cap = Inr (cols, colSzs) \<and>
         cols \<noteq> [] \<and> hd cols \<noteq> [] \<and>
         (\<exists>c \<in> set clusters. hd (hd cols) = Index c \<and>
            (\<forall>c' \<in> set clusters. NumVectors c' \<le> NumVectors c))))"
proof (intro conjI impI)
  show "PackClusters ci [] cap = Inl NoClustersGiven"
    by (simp add: PackClusters_def)
next
  assume a: "clusters \<noteq> [] \<and> sort_Slice_post clusters ci"
  then have ne: "clusters \<noteq> []" and sp: "sort_Slice_post clusters ci" by simp_all
  obtain s rest where f: "ffd clusters ci cap = (hd ci # s) # rest"
    using ffd_head by blast
  have "clusters ! hd ci \<in> set clusters"
    using sort_Slice_post_hd_max(1) [OF ne sp] by simp
  moreover have "hd (hd (idsOf clusters (ffd clusters ci cap))) = Index (clusters ! hd ci)"
    by (simp add: f idsOf_def)
  moreover have "idsOf clusters (ffd clusters ci cap) \<noteq> []" "hd (idsOf clusters (ffd clusters ci cap)) \<noteq> []"
    by (simp_all add: f idsOf_def)
  ultimately show "\<exists>cols colSzs. PackClusters ci clusters cap = Inr (cols, colSzs) \<and>
         cols \<noteq> [] \<and> hd cols \<noteq> [] \<and>
         (\<exists>c \<in> set clusters. hd (hd cols) = Index c \<and>
            (\<forall>c' \<in> set clusters. NumVectors c' \<le> NumVectors c))"
    using PackClusters_ffd [OF ne sp, of cap] sort_Slice_post_hd_max(2) [OF ne sp] by blast
qed

theorem PackClusters_empty_or_largest_first_witness:
  "packing_example \<noteq> [] \<and> sort_Slice_post packing_example [0, 1, 2, 3, 4] \<and>
   PackClusters [0, 1, 2, 3, 4] [] 12 = Inl NoClustersGiven \<and>
   (\<exists>cols colSzs. PackClusters [0, 1, 2, 3, 4] packing_example 12 = Inr (cols, colSzs) \<and>
         cols \<noteq> [] \<and> hd cols \<noteq> [] \<and>
         (\<exists>c \<in> set packing_example. hd (hd cols) = Index c \<and>
            (\<forall>c' \<in> set packing_example. NumVectors c' \<le> NumVectors c)))"
proof -
  have h: "packing_example \<noteq> [] \<and> sort_Slice_post packing_example [0, 1, 2, 3, 4]"
    by (simp add: sort_Slice_post_def less_closure_def packing_example_def mkCluster_def)
  show ?thesis
    using h PackClusters_empty_or_largest_first [of "[0, 1, 2, 3, 4]" 12 packing_example]
    by blast
qed

text \<open>
  C2. \<open>PackClusters\<close> is first-fit decreasing: it works on the clusters in non-increasing
  order of size, and its result is the layout \<open>ffd\<close> of the specification (capacity raised
  to the largest size, first stripe opened with the largest cluster, every other cluster
  put into the first stripe whose row-count plus its size is strictly below the capacity,
  a new stripe otherwise), given as the ids and the row-counts of the stripes.
\<close>

theorem PackClusters_first_fit_decreasing:
  assumes "clusters \<noteq> []" "sort_Slice_post clusters ci"
  shows "sorted_wrt (\<lambda>a b. NumVectors (clusters ! b) \<le> NumVectors (clusters ! a)) ci \<and>
         PackClusters ci clusters cap =
           Inr (idsOf clusters (ffd clusters ci cap), rowCounts clusters (ffd clusters ci cap))"
  using PackClusters_ffd [OF assms] sort_Slice_post_descending [OF assms(2)] by simp

theorem PackClusters_first_fit_decreasing_witness:
  "packing_example \<noteq> [] \<and> sort_Slice_post packing_example [0, 1, 2, 3, 4] \<and>
   ffd packing_example [0, 1, 2, 3, 4] 15 = [[0], [1, 2], [3, 4]] \<and>
   PackClusters [0, 1, 2, 3, 4] packing_example 15 = Inr ([[0], [1, 2], [3, 4]], [10, 14, 10])"
proof -
  have h1: "packing_example \<noteq> []" by (simp add: packing_example_def)
  have h2: "sort_Slice_post packing_example [0, 1, 2, 3, 4]"
    by (simp add: sort_Slice_post_def less_closure_def packing_example_def mkCluster_def)
  have f: "ffd packing_example [0, 1, 2, 3, 4] 15 = [[0], [1, 2], [3, 4]]"
    by (simp add: ffd_def raisedCap_def rowCount_def packing_example_def mkCluster_def)
  have "idsOf packing_example [[0], [1, 2], [3, 4]] = [[0], [1, 2], [3, 4]]"
       "rowCounts packing_example [[0], [1, 2], [3, 4]] = [10, 14, 10]"
    by (simp_all add: idsOf_def rowCounts_def rowCount_def packing_example_def mkCluster_def)
  then show ?thesis
    using h1 h2 f PackClusters_first_fit_decreasing [OF h1 h2, of 15] by simp
qed

text \<open>
  C3. Conservation: \<open>PackClusters\<close> returns as many row-counts as stripes; with distinct
  cluster ids the row-count of a stripe is the sum of the sizes of the clusters it lists;
  the row-counts add up to the sum of all cluster sizes, which is \<open>metadata.num_vectors\<close>
  when the clusters are what \<open>ReadAllClusters\<close> returned. Sums are 64-bit sums, as in the
  code.
\<close>

theorem PackClusters_conservation:
  assumes "clusters \<noteq> []" "sort_Slice_post clusters ci"
  shows "\<exists>cols colSzs. PackClusters ci clusters cap = Inr (cols, colSzs) \<and>
           length colSzs = length cols \<and>
           (distinct (map Index clusters) \<longrightarrow>
              (\<forall>c < length cols. colSzs ! c = sum_list (map (numVectorsOf clusters) (cols ! c)))) \<and>
           sum_list colSzs = sum_list (map NumVectors clusters) \<and>
           (\<forall>metadataFile files precBits metadata.
              ReadAllClusters metadataFile files precBits = Inr (metadata, clusters) \<longrightarrow>
              distinct (map Index clusters) \<and> sum_list colSzs = num_vectors metadata)"
proof -
  let ?ss = "ffd clusters ci cap"
  note d = sort_Slice_postD [OF assms(2)]
  have ne: "ci \<noteq> []" using d(1) assms(1) by auto
  have pc: "PackClusters ci clusters cap = Inr (idsOf clusters ?ss, rowCounts clusters ?ss)"
    by (rule PackClusters_ffd [OF assms])
  have len: "length (rowCounts clusters ?ss) = length (idsOf clusters ?ss)"
    by (simp add: rowCounts_def idsOf_def)
  have total: "sum_list (rowCounts clusters ?ss) = sum_list (map NumVectors clusters)"
    by (simp add: ffd_sum [OF ne] sort_Slice_post_sum [OF assms(2)])
  have stripe: "distinct (map Index clusters) \<longrightarrow>
      (\<forall>c < length (idsOf clusters ?ss).
         rowCounts clusters ?ss ! c = sum_list (map (numVectorsOf clusters) (idsOf clusters ?ss ! c)))"
  proof (intro impI allI)
    fix c assume di: "distinct (map Index clusters)" and "c < length (idsOf clusters ?ss)"
    then have c: "c < length ?ss" by (simp add: idsOf_def)
    then have "?ss ! c \<in> set ?ss" by simp
    then have "\<forall>i \<in> set (?ss ! c). i < length clusters"
      using ffd_positions [OF assms, of cap] by blast
    from sum_numVectorsOf_stripe [OF di this] show
      "rowCounts clusters ?ss ! c = sum_list (map (numVectorsOf clusters) (idsOf clusters ?ss ! c))"
      using c by (simp add: rowCounts_def idsOf_def)
  qed
  have rd: "\<forall>metadataFile files precBits metadata.
              ReadAllClusters metadataFile files precBits = Inr (metadata, clusters) \<longrightarrow>
              distinct (map Index clusters) \<and> sum_list (rowCounts clusters ?ss) = num_vectors metadata"
    using ReadAllClusters_result(1,2) index_positions_distinct total by metis
  show ?thesis
    using pc len total stripe rd by blast
qed

theorem PackClusters_conservation_witness:
  "example_clusters \<noteq> [] \<and> sort_Slice_post example_clusters [0, 1] \<and>
   distinct (map Index example_clusters) \<and>
   ReadAllClusters (Some example_metadata) example_files 3 = Inr (example_metadata, example_clusters) \<and>
   (\<exists>cols colSzs. PackClusters [0, 1] example_clusters 4 = Inr (cols, colSzs) \<and>
      length colSzs = length cols \<and>
      (\<forall>c < length cols. colSzs ! c = sum_list (map (numVectorsOf example_clusters) (cols ! c))) \<and>
      sum_list colSzs = sum_list (map NumVectors example_clusters) \<and>
      sum_list colSzs = num_vectors example_metadata)"
proof -
  have h1: "example_clusters \<noteq> []" by (simp add: example_clusters_def)
  have h2: "sort_Slice_post example_clusters [0, 1]"
    by (simp add: sort_Slice_post_def less_closure_def example_clusters_def)
  have h3: "distinct (map Index example_clusters)" by (simp add: example_clusters_def)
  have h4: "ReadAllClusters (Some example_metadata) example_files 3 = Inr (example_metadata, example_clusters)"
    by (simp add: ReadAllClusters_def readLoop.simps ReadClusterFromCsv_def example_files_def
        example_metadata_def example_clusters_def Let_def)
  show ?thesis
    using h1 h2 h3 h4 PackClusters_conservation [OF h1 h2, of 4] by blast
qed

text \<open>
  C7, as the code has it. The order in which \<open>PackClusters\<close> considers the clusters is the
  one \<open>sort.Slice\<close> leaves: non-increasing in size, with nothing said about clusters of
  equal size. Every stripe lists its clusters in that same relative order; clusters of
  equal size appear by ascending position in a stripe whenever the library's result
  happens to be stable.
\<close>

theorem PackClusters_order_of_ties:
  assumes "clusters \<noteq> []" "sort_Slice_post clusters ci"
  shows "\<exists>ss. PackClusters ci clusters cap = Inr (idsOf clusters ss, rowCounts clusters ss) \<and>
           sorted_wrt (\<lambda>a b. NumVectors (clusters ! b) \<le> NumVectors (clusters ! a)) ci \<and>
           (\<forall>s \<in> set ss. subseq s ci) \<and>
           (stable_order clusters ci \<longrightarrow> (\<forall>s \<in> set ss. stable_order clusters s))"
proof -
  note d = sort_Slice_postD [OF assms(2)]
  have ne: "ci \<noteq> []" using d(1) assms(1) by auto
  have sub: "\<forall>s \<in> set (ffd clusters ci cap). subseq s ci"
    by (rule ffd_subseq [OF ne])
  have "stable_order clusters ci \<longrightarrow> (\<forall>s \<in> set (ffd clusters ci cap). stable_order clusters s)"
    using sub unfolding stable_order_def by (blast intro: subseq_sorted_wrt)
  then show ?thesis
    using PackClusters_ffd [OF assms, of cap] sort_Slice_post_descending [OF assms(2)] sub by blast
qed

theorem PackClusters_order_of_ties_witness:
  "packing_example \<noteq> [] \<and> sort_Slice_post packing_example [0, 1, 2, 3, 4] \<and>
   stable_order packing_example [0, 1, 2, 3, 4] \<and>
   (\<exists>ss. PackClusters [0, 1, 2, 3, 4] packing_example 15 =
            Inr (idsOf packing_example ss, rowCounts packing_example ss) \<and>
         (\<forall>s \<in> set ss. subseq s [0, 1, 2, 3, 4]) \<and>
         (\<forall>s \<in> set ss. stable_order packing_example s))"
proof -
  have h1: "packing_example \<noteq> []" by (simp add: packing_example_def)
  have h2: "sort_Slice_post packing_example [0, 1, 2, 3, 4]"
    by (simp add: sort_Slice_post_def less_closure_def packing_example_def mkCluster_def)
  have h3: "stable_order packing_example [0, 1, 2, 3, 4]"
    by (simp add: stable_order_def packing_example_def mkCluster_def)
  show ?thesis
    using h1 h2 h3 PackClusters_order_of_ties [OF h1 h2, of 15] by blast
qed

text \<open>
  Stability is not part of what \<open>sort.Slice\<close> promises. For thirteen clusters, the first
  of size 1 and the others of size 2, the order below is sorted by size and puts cluster 6
  before cluster 1. It is the order in which a quicksort that swaps the pivot (position 6
  of 13) to the front and finishes the remaining twelve entries by insertion leaves the
  slice, as the pattern-defeating quicksort of the Go library (Go 1.19 and later) does on
  this input.
\<close>

theorem sort_Slice_not_stable_counterexample:
  "sort_Slice_post ties_example [6, 1, 2, 3, 4, 5, 7, 8, 9, 10, 11, 12, 0] \<and>
   \<not> stable_order ties_example [6, 1, 2, 3, 4, 5, 7, 8, 9, 10, 11, 12, 0] \<and>
   PackClusters [6, 1, 2, 3, 4, 5, 7, 8, 9, 10, 11, 12, 0] ties_example 3 =
     Inr ([[6], [1], [2], [3], [4], [5], [7], [8], [9], [10], [11], [12], [0]],
          [2, 2, 2, 2, 2, 2, 2, 2, 2, 2, 2, 2, 1])"
proof (intro conjI)
  show "sort_Slice_post ties_example [6, 1, 2, 3, 4, 5, 7, 8, 9, 10, 11, 12, 0]"
    by (simp add: sort_Slice_post_def less_closure_def ties_example_def mkCluster_def)
  show "\<not> stable_order ties_example [6, 1, 2, 3, 4, 5, 7, 8, 9, 10, 11, 12, 0]"
    by (simp add: stable_order_def ties_example_def mkCluster_def)
  show "PackClusters [6, 1, 2, 3, 4, 5, 7, 8, 9, 10, 11, 12, 0] ties_example 3 =
     Inr ([[6], [1], [2], [3], [4], [5], [7], [8], [9], [10], [11], [12], [0]],
          [2, 2, 2, 2, 2, 2, 2, 2, 2, 2, 2, 2, 1])"
    by (simp add: PackClusters_def packLoop.simps fitLoop.simps ties_example_def mkCluster_def Let_def)
qed

section \<open>Claims about the keys and the parameter check\<close>




lemma buildVals_not_KeyShouldNotYetExist:
  assumes "PackClusters ci clusters (hintSz * 125) = Inr (cols, colSzs)" "distinct (concat cols)"
  shows "buildVals backend metadata clusters ci hintSz precBits \<noteq> Inl KeyShouldNotYetExist"
proof -
  have "colsLoop clusters (of_nat (length cols) * dim metadata) (dim metadata) (utils_Max colSzs) 0
          cols Map.empty vals \<noteq> Inl KeyShouldNotYetExist" for vals
    by (rule colsLoop_no_duplicate [OF assms(2)]) simp
  then show ?thesis
    by (auto simp: buildVals_def assms(1) Let_def split: option.splits sum.splits)
qed

text \<open>
  C4. With distinct cluster ids, the stripes \<open>PackClusters\<close> returns list exactly the ids
  of the clusters, every id in exactly one stripe and exactly once; hence
  \<open>BuildVectorDatabase\<close> never stops with "Key should not yet exist".
\<close>

theorem PackClusters_disjoint_stripes:
  assumes "clusters \<noteq> []" "sort_Slice_post clusters ci" "distinct (map Index clusters)"
  shows "(\<exists>cols colSzs. PackClusters ci clusters cap = Inr (cols, colSzs) \<and>
            set (concat cols) = Index ` set clusters \<and>
            (\<forall>c \<in> set clusters.
               (\<exists>!k. k < length cols \<and> Index c \<in> set (cols ! k)) \<and>
               count_list (concat cols) (Index c) = 1)) \<and>
         BuildVectorDatabase backend metadata clusters ci hintSz precBits \<noteq> Inl KeyShouldNotYetExist"
proof
  let ?cols = "idsOf clusters (ffd clusters ci cap)"
  have pc: "PackClusters ci clusters cap = Inr (?cols, rowCounts clusters (ffd clusters ci cap))"
    by (rule PackClusters_ffd [OF assms(1,2)])
  have di: "distinct (concat ?cols)" and st: "set (concat ?cols) = Index ` set clusters"
    by (rule idsOf_ffd_distinct [OF assms])+
  have "\<forall>c \<in> set clusters.
          (\<exists>!k. k < length ?cols \<and> Index c \<in> set (?cols ! k)) \<and>
          count_list (concat ?cols) (Index c) = 1"
  proof
    fix c assume "c \<in> set clusters"
    then have mem: "Index c \<in> set (concat ?cols)" using st by blast
    then obtain xs where "xs \<in> set ?cols" "Index c \<in> set xs" by auto
    then obtain k where k: "k < length ?cols" "Index c \<in> set (?cols ! k)"
      by (auto simp: in_set_conv_nth)
    have "\<exists>!k. k < length ?cols \<and> Index c \<in> set (?cols ! k)"
      using k distinct_concat_unique_stripe [OF di] by blast
    then show "(\<exists>!k. k < length ?cols \<and> Index c \<in> set (?cols ! k)) \<and>
          count_list (concat ?cols) (Index c) = 1"
      using distinct_count_list [OF di mem] by simp
  qed
  then show "\<exists>cols colSzs. PackClusters ci clusters cap = Inr (cols, colSzs) \<and>
            set (concat cols) = Index ` set clusters \<and>
            (\<forall>c \<in> set clusters.
               (\<exists>!k. k < length cols \<and> Index c \<in> set (cols ! k)) \<and>
               count_list (concat cols) (Index c) = 1)"
    using pc st by blast
next
  have "PackClusters ci clusters (hintSz * 125) =
        Inr (idsOf clusters (ffd clusters ci (hintSz * 125)), rowCounts clusters (ffd clusters ci (hintSz * 125)))"
    by (rule PackClusters_ffd [OF assms(1,2)])
  from buildVals_not_KeyShouldNotYetExist [OF this idsOf_ffd_distinct(1) [OF assms]]
  show "BuildVectorDatabase backend metadata clusters ci hintSz precBits \<noteq> Inl KeyShouldNotYetExist"
    by (auto simp: BuildVectorDatabase_def Let_def split: sum.splits)
qed

theorem PackClusters_disjoint_stripes_witness:
  "example_clusters \<noteq> [] \<and> sort_Slice_post example_clusters [0, 1] \<and>
   distinct (map Index example_clusters) \<and>
   (\<exists>cols colSzs. PackClusters [0, 1] example_clusters 0 = Inr (cols, colSzs) \<and>
            set (concat cols) = Index ` set example_clusters \<and>
            (\<forall>c \<in> set example_clusters.
               (\<exists>!k. k < length cols \<and> Index c \<in> set (cols ! k)) \<and>
               count_list (concat cols) (Index c) = 1)) \<and>
   BuildVectorDatabase toy_backend example_metadata example_clusters [0, 1] 0 3 \<noteq> Inl KeyShouldNotYetExist"
proof -
  have h1: "example_clusters \<noteq> []" by (simp add: example_clusters_def)
  have h2: "sort_Slice_post example_clusters [0, 1]"
    by (simp add: sort_Slice_post_def less_closure_def example_clusters_def)
  have h3: "distinct (map Index example_clusters)" by (simp add: example_clusters_def)
  show ?thesis
    using h1 h2 h3
      PackClusters_disjoint_stripes [OF h1 h2 h3, of 0 toy_backend example_metadata 0 3]
    by blast
qed




section \<open>Claims about the matrix and the index map\<close>

text \<open>
  C5. Let the cluster ids be the positions of the clusters, the dimension non-zero and the
  database small enough that no 64-bit computation wraps. Then \<open>BuildVectorDatabase\<close>
  never stops with the row-overflow panic, and for a database it returns, with
  \<open>L = max colSzs\<close> (which is \<open>db.Info.L\<close>) and \<open>M = len(cols) * dim\<close>, every cluster is
  listed in a stripe \<open>c\<close> such that \<open>(indexMap[id] mod M) / dim = c\<close> and
  \<open>indexMap[id] / M + NumVectors \<le> L\<close>.
\<close>

theorem BuildVectorDatabase_indexMap_consistent:
  assumes "clusters \<noteq> []" "sort_Slice_post clusters ci"
    and "\<forall>i < length clusters. unat (Index (clusters ! i)) = i"
    and "fits_u64 clusters (dim metadata)" "dim metadata \<noteq> 0"
  shows "BuildVectorDatabase backend metadata clusters ci hintSz precBits \<noteq> Inl RowOverflow \<and>
    (\<forall>db indexMap.
       BuildVectorDatabase backend metadata clusters ci hintSz precBits = Inr (db, indexMap) \<longrightarrow>
       (\<exists>cols colSzs.
          PackClusters ci clusters (hintSz * 125) = Inr (cols, colSzs) \<and>
          Info_L backend db = utils_Max colSzs \<and>
          (\<forall>i < length clusters. \<exists>c < length cols. \<exists>v.
             Index (clusters ! i) \<in> set (cols ! c) \<and>
             indexMap (Index (clusters ! i)) = Some v \<and>
             (v mod (of_nat (length cols) * dim metadata)) div dim metadata = of_nat c \<and>
             unat (v div (of_nat (length cols) * dim metadata)) + unat (NumVectors (clusters ! i))
               \<le> unat (utils_Max colSzs))))"
proof -
  let ?cap = "hintSz * 125"
  let ?d = "dim metadata"
  let ?ss = "ffd clusters ci ?cap"
  let ?cols = "idsOf clusters ?ss"
  let ?szs = "rowCounts clusters ?ss"
  let ?l = "utils_Max ?szs"
  let ?m = "of_nat (length ?cols) * ?d"
  have pc: "PackClusters ci clusters ?cap = Inr (?cols, ?szs)"
    by (rule PackClusters_ffd [OF assms(1,2)])
  note lay = layout_no_wrap [OF assms(1,2,3,4,5), of ?cap]
  have A1: "unat ?m = length ?cols * unat ?d" by (rule lay(1))
  have A2: "(unat ?l + 1) * unat ?m < 2 ^ 64" by (rule lay(2))
  have bd: "\<forall>cc \<in> set ?cols. stripeRows clusters cc \<le> unat ?l" by (rule lay(4))
  have no: "buildVals backend metadata clusters ci hintSz precBits \<noteq> Inl RowOverflow"
    by (rule buildVals_no_RowOverflow [OF pc bd])
  have first: "BuildVectorDatabase backend metadata clusters ci hintSz precBits \<noteq> Inl RowOverflow"
    using no by (auto simp: BuildVectorDatabase_def Let_def split: sum.splits)
  have di: "distinct (map Index clusters)" by (rule index_positions_distinct [OF assms(3)])
  have second: "\<exists>cols colSzs.
          PackClusters ci clusters ?cap = Inr (cols, colSzs) \<and>
          Info_L backend db = utils_Max colSzs \<and>
          (\<forall>i < length clusters. \<exists>c < length cols. \<exists>v.
             Index (clusters ! i) \<in> set (cols ! c) \<and>
             indexMap (Index (clusters ! i)) = Some v \<and>
             (v mod (of_nat (length cols) * ?d)) div ?d = of_nat c \<and>
             unat (v div (of_nat (length cols) * ?d)) + unat (NumVectors (clusters ! i))
               \<le> unat (utils_Max colSzs))"
    if ok: "BuildVectorDatabase backend metadata clusters ci hintSz precBits = Inr (db, indexMap)"
    for db indexMap
  proof -
    from BuildVectorDatabase_success [OF ok] obtain cols l m p vals where
      bv: "buildVals backend metadata clusters ci hintSz precBits = Inr (cols, l, m, p, vals, indexMap)"
      and il: "Info_L backend db = l"
      by blast
    from buildVals_success [OF bv] pc have
      cols: "cols = ?cols" and l: "l = ?l" and m: "m = ?m" and
      cl: "colsLoop clusters ?m ?d ?l 0 ?cols Map.empty (replicate (unat (?l * ?m)) 0)
             = Inr (indexMap, vals)"
      by auto
    from colsLoop_frame [OF cl] have
      keys: "\<forall>c < length ?cols. \<forall>k < length (?cols ! c).
        indexMap (?cols ! c ! k) = Some (DBIndex (rowBase clusters (?cols ! c) k) (?d * of_nat c) ?m)"
      by simp
    have each: "\<exists>c < length ?cols. \<exists>v.
             Index (clusters ! i) \<in> set (?cols ! c) \<and>
             indexMap (Index (clusters ! i)) = Some v \<and>
             (v mod ?m) div ?d = of_nat c \<and>
             unat (v div ?m) + unat (NumVectors (clusters ! i)) \<le> unat ?l"
      if i: "i < length clusters" for i
    proof -
      have "Index (clusters ! i) \<in> Index ` set clusters" using i by simp
      then have "Index (clusters ! i) \<in> set (concat ?cols)"
        using idsOf_ffd_distinct(2) [OF assms(1,2) di, of ?cap] by simp
      then obtain cc where "cc \<in> set ?cols" "Index (clusters ! i) \<in> set cc" by auto
      then obtain c k where c: "c < length ?cols" and k: "k < length (?cols ! c)"
        and ck: "?cols ! c ! k = Index (clusters ! i)"
        by (metis in_set_conv_nth)
      let ?rb = "rowBase clusters (?cols ! c) k"
      let ?v = "DBIndex ?rb (?d * of_nat c) ?m"
      have mem: "Index (clusters ! i) \<in> set (?cols ! c)" using k ck by (metis nth_mem)
      have im: "indexMap (Index (clusters ! i)) = Some ?v" using keys c k ck by metis
      have srl: "stripeRows clusters (?cols ! c) \<le> unat ?l" using bd c by simp
      have l64: "unat ?l < 2 ^ 64" using unsigned_less [of ?l, where 'a = nat] by simp
      then have "stripeRows clusters (?cols ! c) < 2 ^ 64" using srl by linarith
      then have rb: "unat ?rb = stripeRows clusters (take k (?cols ! c))"
        using rowBase_unat k by simp
      have same: "clusters ! unat (?cols ! c ! k) = clusters ! i" using ck assms(3) i by simp
      have "stripeRows clusters (take k (?cols ! c)) + unat (NumVectors (clusters ! i))
              \<le> stripeRows clusters (?cols ! c)"
        using stripeRows_take [OF k, of clusters] same by simp
      then have sum: "unat ?rb + unat (NumVectors (clusters ! i)) \<le> unat ?l" using rb srl by linarith
      then have rbl: "unat ?rb \<le> unat ?l" by linarith
      note od = origin_decompose [OF A1 A2 rbl c assms(5)]
      have "(?v mod ?m) div ?d = of_nat c" by (rule od(1))
      moreover have "unat (?v div ?m) + unat (NumVectors (clusters ! i)) \<le> unat ?l"
        using od(2) sum by simp
      ultimately show ?thesis using c mem im by blast
    qed
    show ?thesis using pc il l each by blast
  qed
  show ?thesis using first second by blast
qed

theorem BuildVectorDatabase_indexMap_consistent_witness:
  "example_clusters \<noteq> [] \<and> sort_Slice_post example_clusters [0, 1] \<and>
   map (\<lambda>c. unat (Index c)) example_clusters = [0, 1] \<and>
   fits_u64 example_clusters (dim example_metadata) \<and> dim example_metadata \<noteq> 0 \<and>
   BuildVectorDatabase toy_backend example_metadata example_clusters [0, 1] 0 3 \<noteq> Inl RowOverflow \<and>
   (\<exists>indexMap.
      BuildVectorDatabase toy_backend example_metadata example_clusters [0, 1] 0 3
        = Inr ((16, 8, [1, 1, 1, 1, 18446744073709551615, 18446744073709551615,
                        18446744073709551615, 18446744073709551615, 2, 0, 0, 0, 0, 0, 0, 0]),
               indexMap) \<and>
      (\<exists>cols colSzs.
          PackClusters [0, 1] example_clusters (0 * 125) = Inr (cols, colSzs) \<and>
          (\<forall>i < length example_clusters. \<exists>c < length cols. \<exists>v.
             Index (example_clusters ! i) \<in> set (cols ! c) \<and>
             indexMap (Index (example_clusters ! i)) = Some v \<and>
             (v mod (of_nat (length cols) * dim example_metadata)) div dim example_metadata = of_nat c \<and>
             unat (v div (of_nat (length cols) * dim example_metadata)) +
               unat (NumVectors (example_clusters ! i)) \<le> unat (utils_Max colSzs))))"
proof -
  have h1: "example_clusters \<noteq> []" by (simp add: example_clusters_def)
  have h2: "sort_Slice_post example_clusters [0, 1]"
    by (simp add: sort_Slice_post_def less_closure_def example_clusters_def)
  have h3: "\<forall>i < length example_clusters. unat (Index (example_clusters ! i)) = i"
    by (simp add: example_clusters_def less_Suc_eq)
  have h4: "fits_u64 example_clusters (dim example_metadata)"
    by (simp add: fits_u64_def example_clusters_def example_metadata_def)
  have h5: "dim example_metadata \<noteq> 0" by (simp add: example_metadata_def)
  have ev: "map_sum id fst (BuildVectorDatabase toy_backend example_metadata example_clusters [0, 1] 0 3)
        = Inr (16, 8, [1, 1, 1, 1, 18446744073709551615, 18446744073709551615,
                       18446744073709551615, 18446744073709551615, 2, 0, 0, 0, 0, 0, 0, 0])"
    by code_simp
  then obtain indexMap where
    ok: "BuildVectorDatabase toy_backend example_metadata example_clusters [0, 1] 0 3
        = Inr ((16, 8, [1, 1, 1, 1, 18446744073709551615, 18446744073709551615,
                        18446744073709551615, 18446744073709551615, 2, 0, 0, 0, 0, 0, 0, 0]),
               indexMap)"
    by (cases "BuildVectorDatabase toy_backend example_metadata example_clusters [0, 1] 0 3") auto
  have h3': "map (\<lambda>c. unat (Index c)) example_clusters = [0, 1]"
    by (simp add: example_clusters_def)
  show ?thesis
    using h1 h2 h3' h4 h5 ok
      BuildVectorDatabase_indexMap_consistent [OF h1 h2 h3 h4 h5, of toy_backend 0 3]
    by blast
qed

lemma scast_i8_u64: "uint (scast (v :: i8) :: u64) = sint v mod 2 ^ 64"
  unfolding scast_eq uint_word_of_int by simp

text \<open>
  C1, as the code has it. Let the cluster ids be the positions of the clusters and the
  database small enough that no 64-bit computation wraps. In a database that
  \<open>BuildVectorDatabase\<close> returns, the cluster listed at place \<open>k\<close> of stripe \<open>c\<close> has its
  origin \<open>indexMap[id] = rowBase * M + c * dim\<close>, and for each of its vectors \<open>i\<close> and each
  lane \<open>j\<close> the slot \<open>(rowBase + i) * M + c * dim + j\<close> of \<open>vals\<close> holds
  \<open>uint64(Vectors[i * dim + j])\<close>: the \<open>int8\<close> value sign-extended to 64 bits, that is the
  value modulo \<open>2 ^ 64\<close>.
\<close>

theorem BuildVectorDatabase_stores_sign_extended:
  assumes "clusters \<noteq> []" "sort_Slice_post clusters ci"
    and "\<forall>i < length clusters. unat (Index (clusters ! i)) = i"
    and "fits_u64 clusters (dim metadata)"
    and "BuildVectorDatabase backend metadata clusters ci hintSz precBits = Inr (db, indexMap)"
  shows "\<exists>cols l m p vals.
           buildVals backend metadata clusters ci hintSz precBits = Inr (cols, l, m, p, vals, indexMap) \<and>
           db = NewDatabaseFixedParams backend (l * m) 15 vals p \<and>
           (\<forall>c < length cols. \<forall>k < length (cols ! c).
              indexMap (cols ! c ! k) =
                Some (DBIndex (rowBase clusters (cols ! c) k) (dim metadata * of_nat c) m) \<and>
              (\<forall>i j. i < NumVectors (clusters ! unat (cols ! c ! k)) \<and> j < dim metadata \<longrightarrow>
                 vals ! unat (DBIndex (rowBase clusters (cols ! c) k + i) (dim metadata * of_nat c + j) m)
                   = scast (Vectors (clusters ! unat (cols ! c ! k)) ! unat (i * dim metadata + j)) \<and>
                 uint (vals ! unat (DBIndex (rowBase clusters (cols ! c) k + i)
                                      (dim metadata * of_nat c + j) m))
                   = sint (Vectors (clusters ! unat (cols ! c ! k)) ! unat (i * dim metadata + j))
                       mod 2 ^ 64))"
proof -
  let ?cap = "hintSz * 125"
  let ?d = "dim metadata"
  let ?ss = "ffd clusters ci ?cap"
  let ?cols = "idsOf clusters ?ss"
  let ?szs = "rowCounts clusters ?ss"
  let ?l = "utils_Max ?szs"
  let ?m = "of_nat (length ?cols) * ?d"
  have pc: "PackClusters ci clusters ?cap = Inr (?cols, ?szs)"
    by (rule PackClusters_ffd [OF assms(1,2)])
  from BuildVectorDatabase_success [OF assms(5)] obtain cols l m p vals where
    bv: "buildVals backend metadata clusters ci hintSz precBits = Inr (cols, l, m, p, vals, indexMap)"
    and db: "db = NewDatabaseFixedParams backend (l * m) 15 vals p"
    by blast
  from buildVals_success [OF bv] pc have
    cols: "cols = ?cols" and l: "l = ?l" and m: "m = ?m" and
    cl: "colsLoop clusters ?m ?d ?l 0 ?cols Map.empty (replicate (unat (?l * ?m)) 0)
           = Inr (indexMap, vals)"
    by auto
  from colsLoop_frame [OF cl] have
    keys: "\<forall>c < length ?cols. \<forall>k < length (?cols ! c).
      indexMap (?cols ! c ! k) = Some (DBIndex (rowBase clusters (?cols ! c) k) (?d * of_nat c) ?m)"
    by simp
  have written: "\<forall>c < length ?cols. \<forall>k < length (?cols ! c). \<forall>i j.
      i < NumVectors (clusters ! unat (?cols ! c ! k)) \<and> j < ?d \<longrightarrow>
      vals ! unat (DBIndex (rowBase clusters (?cols ! c) k + i) (?d * of_nat c + j) ?m) =
      scast (Vectors (clusters ! unat (?cols ! c ! k)) ! unat (i * ?d + j))"
  proof (cases "?d = 0")
    case True
    then show ?thesis by simp
  next
    case False
    note lay = layout_no_wrap [OF assms(1,2,3,4) False, of ?cap]
    have A1: "unat ?m = (0 + length ?cols) * unat ?d" using lay(1) by simp
    from colsLoop_written [OF cl A1 lay(2) lay(4)] show ?thesis by simp
  qed
  have "\<forall>c < length ?cols. \<forall>k < length (?cols ! c).
              indexMap (?cols ! c ! k) =
                Some (DBIndex (rowBase clusters (?cols ! c) k) (?d * of_nat c) ?m) \<and>
              (\<forall>i j. i < NumVectors (clusters ! unat (?cols ! c ! k)) \<and> j < ?d \<longrightarrow>
                 vals ! unat (DBIndex (rowBase clusters (?cols ! c) k + i) (?d * of_nat c + j) ?m)
                   = scast (Vectors (clusters ! unat (?cols ! c ! k)) ! unat (i * ?d + j)) \<and>
                 uint (vals ! unat (DBIndex (rowBase clusters (?cols ! c) k + i) (?d * of_nat c + j) ?m))
                   = sint (Vectors (clusters ! unat (?cols ! c ! k)) ! unat (i * ?d + j)) mod 2 ^ 64)"
    using keys written scast_i8_u64 by simp
  then show ?thesis using bv db cols l m by blast
qed

theorem BuildVectorDatabase_stores_sign_extended_witness:
  "example_clusters \<noteq> [] \<and> sort_Slice_post example_clusters [0, 1] \<and>
   map (\<lambda>c. unat (Index c)) example_clusters = [0, 1] \<and>
   fits_u64 example_clusters (dim example_metadata) \<and>
   (\<exists>indexMap.
      BuildVectorDatabase toy_backend example_metadata example_clusters [0, 1] 900 3
        = Inr ((12, 4, [1, 1, 1, 1, 2, 0, 0, 0, 18446744073709551615, 18446744073709551615,
                        18446744073709551615, 18446744073709551615]),
               indexMap) \<and>
      (\<exists>cols l m p vals.
           buildVals toy_backend example_metadata example_clusters [0, 1] 900 3
             = Inr (cols, l, m, p, vals, indexMap) \<and>
           (12, 4, [1, 1, 1, 1, 2, 0, 0, 0, 18446744073709551615, 18446744073709551615,
                    18446744073709551615, 18446744073709551615])
             = NewDatabaseFixedParams toy_backend (l * m) 15 vals p \<and>
           (\<forall>c < length cols. \<forall>k < length (cols ! c).
              indexMap (cols ! c ! k) =
                Some (DBIndex (rowBase example_clusters (cols ! c) k) (dim example_metadata * of_nat c) m) \<and>
              (\<forall>i j. i < NumVectors (example_clusters ! unat (cols ! c ! k)) \<and> j < dim example_metadata \<longrightarrow>
                 vals ! unat (DBIndex (rowBase example_clusters (cols ! c) k + i)
                                (dim example_metadata * of_nat c + j) m)
                   = scast (Vectors (example_clusters ! unat (cols ! c ! k)) ! unat (i * dim example_metadata + j)) \<and>
                 uint (vals ! unat (DBIndex (rowBase example_clusters (cols ! c) k + i)
                                      (dim example_metadata * of_nat c + j) m))
                   = sint (Vectors (example_clusters ! unat (cols ! c ! k)) ! unat (i * dim example_metadata + j))
                       mod 2 ^ 64))))"
proof -
  have h1: "example_clusters \<noteq> []" by (simp add: example_clusters_def)
  have h2: "sort_Slice_post example_clusters [0, 1]"
    by (simp add: sort_Slice_post_def less_closure_def example_clusters_def)
  have h3: "\<forall>i < length example_clusters. unat (Index (example_clusters ! i)) = i"
    by (simp add: example_clusters_def less_Suc_eq)
  have h3': "map (\<lambda>c. unat (Index c)) example_clusters = [0, 1]"
    by (simp add: example_clusters_def)
  have h4: "fits_u64 example_clusters (dim example_metadata)"
    by (simp add: fits_u64_def example_clusters_def example_metadata_def)
  have ev: "map_sum id fst (BuildVectorDatabase toy_backend example_metadata example_clusters [0, 1] 900 3)
        = Inr (12, 4, [1, 1, 1, 1, 2, 0, 0, 0, 18446744073709551615, 18446744073709551615,
                       18446744073709551615, 18446744073709551615])"
    by code_simp
  then obtain indexMap where
    ok: "BuildVectorDatabase toy_backend example_metadata example_clusters [0, 1] 900 3
        = Inr ((12, 4, [1, 1, 1, 1, 2, 0, 0, 0, 18446744073709551615, 18446744073709551615,
                        18446744073709551615, 18446744073709551615]),
               indexMap)"
    by (cases "BuildVectorDatabase toy_backend example_metadata example_clusters [0, 1] 900 3") auto
  show ?thesis
    using h1 h2 h3' h4 ok
      BuildVectorDatabase_stores_sign_extended [OF h1 h2 h3 h4 ok]
    by blast
qed

text \<open>
  The stored value is not the byte zero-extended: in scenario S1 the second cluster starts
  at row 2 of the only stripe, its first component is \<open>-1\<close>, and slot \<open>2 * 4 + 0 = 8\<close> holds
  \<open>2 ^ 64 - 1\<close>, whereas the zero-extended byte is 255.
\<close>

theorem BuildVectorDatabase_zero_extended_counterexample:
  "map_sum id fst (BuildVectorDatabase toy_backend example_metadata example_clusters [0, 1] 900 3)
     = Inr (12, 4, [1, 1, 1, 1, 2, 0, 0, 0, 18446744073709551615, 18446744073709551615,
                    18446744073709551615, 18446744073709551615]) \<and>
   PackClusters [0, 1] example_clusters (900 * 125) = Inr ([[0, 1]], [3]) \<and>
   rowBase example_clusters [0, 1] 1 = 2 \<and>
   unat (DBIndex (2 + 0) (dim example_metadata * of_nat 0 + 0) 4) = 8 \<and>
   [1, 1, 1, 1, 2, 0, 0, 0, 18446744073709551615, 18446744073709551615,
    18446744073709551615, 18446744073709551615 :: u64] ! 8 = 18446744073709551615 \<and>
   Vectors (example_clusters ! 1) ! unat (0 * dim example_metadata + 0) = - 1 \<and>
   (ucast (- 1 :: i8) :: u64) = 255 \<and>
   (18446744073709551615 :: u64) \<noteq> 255"
proof (intro conjI)
  show "map_sum id fst (BuildVectorDatabase toy_backend example_metadata example_clusters [0, 1] 900 3)
     = Inr (12, 4, [1, 1, 1, 1, 2, 0, 0, 0, 18446744073709551615, 18446744073709551615,
                    18446744073709551615, 18446744073709551615])"
    by code_simp
  show "PackClusters [0, 1] example_clusters (900 * 125) = Inr ([[0, 1]], [3])"
    by code_simp
  show "rowBase example_clusters [0, 1] 1 = 2"
    by (simp add: rowBase_def example_clusters_def)
  show "unat (DBIndex (2 + 0) (dim example_metadata * of_nat 0 + 0) 4) = 8"
    by (simp add: DBIndex_def)
  show "Vectors (example_clusters ! 1) ! unat (0 * dim example_metadata + 0) = - 1"
    by (simp add: example_clusters_def)
  show "(ucast (- 1 :: i8) :: u64) = 255" by code_simp
qed simp_all

text \<open>
  C8. In a database that \<open>BuildVectorDatabase\<close> returns, \<open>vals\<close> has \<open>L * M\<close> entries and
  every slot that lies in no cluster's range still holds the 0 it was allocated with. When
  the cluster ids are the positions and nothing wraps, these are in particular the slots
  of every stripe from its row-count up to \<open>L\<close>.
\<close>

theorem BuildVectorDatabase_unused_slots_zero:
  assumes "BuildVectorDatabase backend metadata clusters ci hintSz precBits = Inr (db, indexMap)"
  shows "\<exists>cols colSzs l m p vals.
           PackClusters ci clusters (hintSz * 125) = Inr (cols, colSzs) \<and>
           buildVals backend metadata clusters ci hintSz precBits = Inr (cols, l, m, p, vals, indexMap) \<and>
           db = NewDatabaseFixedParams backend (l * m) 15 vals p \<and>
           length vals = unat (l * m) \<and>
           (\<forall>idx < length vals.
              (\<forall>c k i j. c < length cols \<and> k < length (cols ! c) \<and>
                  i < NumVectors (clusters ! unat (cols ! c ! k)) \<and> j < dim metadata \<longrightarrow>
                  idx \<noteq> unat (DBIndex (rowBase clusters (cols ! c) k + i)
                                  (dim metadata * of_nat c + j) m)) \<longrightarrow>
              vals ! idx = 0) \<and>
           (clusters \<noteq> [] \<and> sort_Slice_post clusters ci \<and>
            (\<forall>i < length clusters. unat (Index (clusters ! i)) = i) \<and>
            fits_u64 clusters (dim metadata) \<longrightarrow>
            (\<forall>c < length cols. \<forall>r j. colSzs ! c \<le> r \<and> r < l \<and> j < dim metadata \<longrightarrow>
               unat (DBIndex r (dim metadata * of_nat c + j) m) < length vals \<and>
               vals ! unat (DBIndex r (dim metadata * of_nat c + j) m) = 0))"
proof -
  let ?cap = "hintSz * 125"
  let ?d = "dim metadata"
  from BuildVectorDatabase_success [OF assms] obtain cols l m p vals where
    bv: "buildVals backend metadata clusters ci hintSz precBits = Inr (cols, l, m, p, vals, indexMap)"
    and db: "db = NewDatabaseFixedParams backend (l * m) 15 vals p"
    by blast
  from buildVals_success [OF bv] obtain colSzs where
    pc: "PackClusters ci clusters ?cap = Inr (cols, colSzs)" and
    l: "l = utils_Max colSzs" and m: "m = of_nat (length cols) * ?d" and
    cl: "colsLoop clusters m ?d l 0 cols Map.empty (replicate (unat (l * m)) 0) = Inr (indexMap, vals)"
    by blast
  from colsLoop_frame [OF cl] have
    len: "length vals = unat (l * m)" and
    fr: "\<forall>idx. (\<forall>c k i j. c < length cols \<and> k < length (cols ! c) \<and>
                i < NumVectors (clusters ! unat (cols ! c ! k)) \<and> j < ?d \<longrightarrow>
                idx \<noteq> unat (DBIndex (rowBase clusters (cols ! c) k + i) (?d * of_nat c + j) m)) \<longrightarrow>
            vals ! idx = replicate (unat (l * m)) 0 ! idx"
    by simp_all
  have general: "\<forall>idx < length vals.
              (\<forall>c k i j. c < length cols \<and> k < length (cols ! c) \<and>
                  i < NumVectors (clusters ! unat (cols ! c ! k)) \<and> j < ?d \<longrightarrow>
                  idx \<noteq> unat (DBIndex (rowBase clusters (cols ! c) k + i) (?d * of_nat c + j) m)) \<longrightarrow>
              vals ! idx = 0"
    using fr len by simp
  have particular: "\<forall>c < length cols. \<forall>r j. colSzs ! c \<le> r \<and> r < l \<and> j < ?d \<longrightarrow>
               unat (DBIndex r (?d * of_nat c + j) m) < length vals \<and>
               vals ! unat (DBIndex r (?d * of_nat c + j) m) = 0"
    if wf: "clusters \<noteq> [] \<and> sort_Slice_post clusters ci \<and>
            (\<forall>i < length clusters. unat (Index (clusters ! i)) = i) \<and> fits_u64 clusters ?d"
  proof (intro allI impI)
    fix c r j
    assume c: "c < length cols" and a: "colSzs ! c \<le> r \<and> r < l \<and> j < ?d"
    then have j: "j < ?d" and rl: "r < l" and rc: "colSzs ! c \<le> r" by simp_all
    have d0: "?d \<noteq> 0" using j by auto
    from wf have ne: "clusters \<noteq> []" and sp: "sort_Slice_post clusters ci"
      and ix: "\<forall>i < length clusters. unat (Index (clusters ! i)) = i" and ft: "fits_u64 clusters ?d"
      by simp_all
    let ?ss = "ffd clusters ci ?cap"
    have cs: "cols = idsOf clusters ?ss" "colSzs = rowCounts clusters ?ss"
      using pc PackClusters_ffd [OF ne sp, of ?cap] by simp_all
    note lay = layout_no_wrap [OF ne sp ix ft d0, of ?cap]
    have A1: "unat m = length cols * unat ?d" using lay(1) cs m by simp
    have A2: "(unat l + 1) * unat m < 2 ^ 64" using lay(2) cs m l by simp
    have A3: "\<forall>c < length cols. stripeRows clusters (cols ! c) = unat (colSzs ! c)"
      using lay(3) cs by (simp add: idsOf_def)
    have bd: "\<forall>cc \<in> set cols. stripeRows clusters cc \<le> unat l" using lay(4) cs l by simp
    have ur: "unat r < unat l" using rl by (simp add: word_less_nat_alt)
    then have url: "unat r \<le> unat l" by simp
    note cu = cell_unat [OF A1 A2 url c j]
    have "unat l * unat m < 2 ^ LENGTH(64)"
    proof -
      have "unat l * unat m \<le> (unat l + 1) * unat m" by simp
      then show ?thesis using A2 by simp
    qed
    then have lm: "unat (l * m) = unat l * unat m" using unat_mult_lem [of l m] by simp
    have "unat r * unat m + unat m \<le> unat l * unat m"
    proof -
      have "(unat r + 1) * unat m \<le> unat l * unat m" using ur by (intro mult_le_mono1) simp
      then show ?thesis by (simp add: algebra_simps)
    qed
    then have inr: "unat (DBIndex r (?d * of_nat c + j) m) < length vals"
      using cu len lm by linarith
    have "\<forall>c' k i j'. c' < length cols \<and> k < length (cols ! c') \<and>
                  i < NumVectors (clusters ! unat (cols ! c' ! k)) \<and> j' < ?d \<longrightarrow>
                  unat (DBIndex r (?d * of_nat c + j) m) \<noteq>
                  unat (DBIndex (rowBase clusters (cols ! c') k + i) (?d * of_nat c' + j') m)"
    proof (intro allI impI)
      fix c' k i j'
      assume b: "c' < length cols \<and> k < length (cols ! c') \<and>
                  i < NumVectors (clusters ! unat (cols ! c' ! k)) \<and> j' < ?d"
      then have srl: "stripeRows clusters (cols ! c') \<le> unat l" using bd by simp
      have lt: "unat (rowBase clusters (cols ! c') k + i) < stripeRows clusters (cols ! c')"
        using stripe_row0_unat(2) [OF srl, of k i] b by simp
      then have r1: "unat (rowBase clusters (cols ! c') k + i) \<le> unat l" using srl by linarith
      have "unat r \<noteq> unat (rowBase clusters (cols ! c') k + i) \<or> c \<noteq> c'"
      proof (cases "c = c'")
        case True
        have "unat (colSzs ! c) \<le> unat r" using rc by (simp add: word_le_nat_alt)
        then show ?thesis using lt A3 c True by simp
      next
        case False
        then show ?thesis by simp
      qed
      from cell_distinct [OF A1 A2 url c j r1 _ _ this] b
      show "unat (DBIndex r (?d * of_nat c + j) m) \<noteq>
            unat (DBIndex (rowBase clusters (cols ! c') k + i) (?d * of_nat c' + j') m)"
        by blast
    qed
    then have "vals ! unat (DBIndex r (?d * of_nat c + j) m) = 0"
      using general inr by blast
    then show "unat (DBIndex r (?d * of_nat c + j) m) < length vals \<and>
               vals ! unat (DBIndex r (?d * of_nat c + j) m) = 0"
      using inr by simp
  qed
  show ?thesis using pc bv db len general particular by blast
qed

theorem BuildVectorDatabase_unused_slots_zero_witness:
  "example_clusters \<noteq> [] \<and> sort_Slice_post example_clusters [0, 1] \<and>
   map (\<lambda>c. unat (Index c)) example_clusters = [0, 1] \<and>
   fits_u64 example_clusters (dim example_metadata) \<and>
   (\<exists>indexMap.
      BuildVectorDatabase toy_backend example_metadata example_clusters [0, 1] 0 3
        = Inr ((16, 8, [1, 1, 1, 1, 18446744073709551615, 18446744073709551615,
                        18446744073709551615, 18446744073709551615, 2, 0, 0, 0, 0, 0, 0, 0]),
               indexMap) \<and>
      (\<exists>cols colSzs l m p vals.
           PackClusters [0, 1] example_clusters (0 * 125) = Inr (cols, colSzs) \<and>
           buildVals toy_backend example_metadata example_clusters [0, 1] 0 3
             = Inr (cols, l, m, p, vals, indexMap) \<and>
           length vals = unat (l * m) \<and>
           (\<forall>c < length cols. \<forall>r j. colSzs ! c \<le> r \<and> r < l \<and> j < dim example_metadata \<longrightarrow>
               unat (DBIndex r (dim example_metadata * of_nat c + j) m) < length vals \<and>
               vals ! unat (DBIndex r (dim example_metadata * of_nat c + j) m) = 0)))"
proof -
  have h1: "example_clusters \<noteq> []" by (simp add: example_clusters_def)
  have h2: "sort_Slice_post example_clusters [0, 1]"
    by (simp add: sort_Slice_post_def less_closure_def example_clusters_def)
  have h3: "\<forall>i < length example_clusters. unat (Index (example_clusters ! i)) = i"
    by (simp add: example_clusters_def less_Suc_eq)
  have h3': "map (\<lambda>c. unat (Index c)) example_clusters = [0, 1]"
    by (simp add: example_clusters_def)
  have h4: "fits_u64 example_clusters (dim example_metadata)"
    by (simp add: fits_u64_def example_clusters_def example_metadata_def)
  have ev: "map_sum id fst (BuildVectorDatabase toy_backend example_metadata example_clusters [0, 1] 0 3)
        = Inr (16, 8, [1, 1, 1, 1, 18446744073709551615, 18446744073709551615,
                       18446744073709551615, 18446744073709551615, 2, 0, 0, 0, 0, 0, 0, 0])"
    by code_simp
  then obtain indexMap where
    ok: "BuildVectorDatabase toy_backend example_metadata example_clusters [0, 1] 0 3
        = Inr ((16, 8, [1, 1, 1, 1, 18446744073709551615, 18446744073709551615,
                        18446744073709551615, 18446744073709551615, 2, 0, 0, 0, 0, 0, 0, 0]),
               indexMap)"
    by (cases "BuildVectorDatabase toy_backend example_metadata example_clusters [0, 1] 0 3") auto
  from BuildVectorDatabase_unused_slots_zero [OF ok] h1 h2 h3 h4
  have "\<exists>cols colSzs l m p vals.
           PackClusters [0, 1] example_clusters (0 * 125) = Inr (cols, colSzs) \<and>
           buildVals toy_backend example_metadata example_clusters [0, 1] 0 3
             = Inr (cols, l, m, p, vals, indexMap) \<and>
           length vals = unat (l * m) \<and>
           (\<forall>c < length cols. \<forall>r j. colSzs ! c \<le> r \<and> r < l \<and> j < dim example_metadata \<longrightarrow>
               unat (DBIndex r (dim example_metadata * of_nat c + j) m) < length vals \<and>
               vals ! unat (DBIndex r (dim example_metadata * of_nat c + j) m) = 0)"
    by blast
  then show ?thesis using h1 h2 h3' h4 ok by blast
qed

section \<open>Properties of writeResults\<close>

lemma fillLine_not_NoScores: "fillLine scores numRes i line \<noteq> Inl NoScoresToWrite"
proof (induction scores numRes i line rule: fillLine.induct)
  case (1 scores numRes i line)
  then show ?case
    by (subst fillLine.simps) simp
qed

text \<open>
  C9. A round whose score list is empty fails: \<open>writeResults\<close> panics with "Error: No
  scores to write" before it touches either writer. For a non-empty score list this panic
  does not occur.
\<close>

theorem writeResults_empty_scores:
  "(scores = [] \<longrightarrow>
      writeResults writer perfWriter scores k perfLine = (Some NoScoresToWrite, writer, perfWriter)) \<and>
   (scores \<noteq> [] \<longrightarrow>
      fst (writeResults writer perfWriter scores k perfLine) \<noteq> Some NoScoresToWrite)"
  using fillLine_not_NoScores
  by (auto simp: writeResults_def Let_def split: sum.splits option.splits)

theorem writeResults_empty_scores_witness:
  "writeResults \<lparr>written = [], broken = False\<rparr> \<lparr>written = [], broken = False\<rparr> [] 10 []
     = (Some NoScoresToWrite, \<lparr>written = [], broken = False\<rparr>, \<lparr>written = [], broken = False\<rparr>) \<and>
   fst (writeResults \<lparr>written = [], broken = False\<rparr> \<lparr>written = [], broken = False\<rparr>
          [\<lparr>ClusterID = 12, IDWithinCluster = 305\<rparr>] 10 []) \<noteq> Some NoScoresToWrite"
  using writeResults_empty_scores [of "[]" "\<lparr>written = [], broken = False\<rparr>" "\<lparr>written = [], broken = False\<rparr>" 10 "[]"]
        writeResults_empty_scores [of "[\<lparr>ClusterID = 12, IDWithinCluster = 305\<rparr>]" "\<lparr>written = [], broken = False\<rparr>" "\<lparr>written = [], broken = False\<rparr>" 10 "[]"]
  by simp

end
